theory Spec2Isabelle
  imports Complex_Main "HOL-Library.Word"
begin

section \<open>Ceaflate: chunked deflate container (src/main.cpp)\<close>

text \<open>
  The program reads a whole file into a byte vector, splits it into chunks of
  \<open>CHUNK_SIZE\<close> bytes, compresses every chunk with zlib and writes a container: a
  fixed header (\<open>block_count\<close> and a table of \<open>MAX_BLOCKS\<close> offsets) followed by one
  record per chunk, \<open>[uncompressed_size : u32][zlib stream]\<close>. Decompression does the
  reverse.

  Conventions of the embedding:
  \<^item> a file and a buffer are a \<open>byte list\<close>;
  \<^item> \<open>std::size_t\<close> is 64 bits wide and file sizes stay below \<open>2^63\<close> (they come
    from \<open>ftell\<close>), so no \<open>size_t\<close> expression of the program wraps; such values
    are \<open>nat\<close>. Every narrowing to \<open>std::uint32_t\<close> or zlib's \<open>uInt\<close> is written
    out as \<open>mod 2 ^ 32\<close>;
  \<^item> the header is accessed through \<open>reinterpret_cast\<close>, in host byte order: the
    model fixes little-endian;
  \<^item> every \<open>return EXIT_FAILURE\<close> and \<open>std::exit(EXIT_FAILURE)\<close> is an \<open>Inl\<close>
    value naming the diagnostic printed; \<open>Inr bytes\<close> is \<open>EXIT_SUCCESS\<close> with the
    bytes written to the output file. Only \<open>WriteFailed\<close> is returned after the
    output file has been opened;
  \<^item> zlib is an external library and the number of hardware threads a property
    of the host: both are parameters of the model, one record of what the program
    takes from its platform.
\<close>

subsection \<open>Constants and layout\<close>

type_synonym byte = "8 word"

definition CHUNK_SIZE :: nat where
  "CHUNK_SIZE = 0x20000"

definition MAX_BLOCKS :: nat where
  "MAX_BLOCKS = 0xFFFF"

definition UINT32_MAX :: nat where
  "UINT32_MAX = 0xFFFFFFFF"

text \<open>\<open>sizeof(std::uint32_t)\<close>.\<close>

definition sizeof_uint32 :: nat where
  "sizeof_uint32 = 4"

text \<open>\<open>sizeof(CompressedMapHeader)\<close>: one \<open>uint32_t\<close> and an array of \<open>MAX_BLOCKS\<close> of them.\<close>

definition sizeof_CompressedMapHeader :: nat where
  "sizeof_CompressedMapHeader = sizeof_uint32 + sizeof_uint32 * MAX_BLOCKS"

text \<open>Reading a \<open>std::uint32_t\<close> at byte address \<open>a\<close> of a buffer, little-endian.\<close>

definition load_u32 :: "byte list \<Rightarrow> nat \<Rightarrow> nat" where
  "load_u32 m a =
     unat (m ! a) + 256 * unat (m ! (a + 1)) + 65536 * unat (m ! (a + 2))
       + 16777216 * unat (m ! (a + 3))"

text \<open>The four bytes of \<open>static_cast<std::uint32_t>(n)\<close>, little-endian.\<close>

definition store_u32 :: "nat \<Rightarrow> byte list" where
  "store_u32 n =
     [of_nat (n mod 2 ^ 32), of_nat (n mod 2 ^ 32 div 256), of_nat (n mod 2 ^ 32 div 65536),
      of_nat (n mod 2 ^ 32 div 16777216)]"

text \<open>The fields of a \<open>CompressedMapHeader\<close> overlaid on the start of a buffer.\<close>

definition block_count :: "byte list \<Rightarrow> nat" where
  "block_count m = load_u32 m 0"

definition block_offsets :: "byte list \<Rightarrow> nat \<Rightarrow> nat" where
  "block_offsets m i = load_u32 m (sizeof_uint32 + sizeof_uint32 * i)"

subsection \<open>Errors\<close>

datatype error =
    NotEnoughBytes
  | InvalidBlockCount nat
  | MaxBlocksExceeded nat
  | InvalidOffset nat nat
  | BlocksFailed "nat list"
  | SizeExceeded nat
  | WriteFailed

subsection \<open>The platform: zlib and the hardware threads\<close>

datatype zret =
    Z_OK | Z_STREAM_END | Z_NEED_DICT | Z_ERRNO | Z_STREAM_ERROR | Z_DATA_ERROR
  | Z_MEM_ERROR | Z_BUF_ERROR | Z_VERSION_ERROR

text \<open>
  The library as the program uses it. \<open>inflate z avail_in mem avail_out\<close> is
  \<open>inflate(&s, Z_FINISH)\<close> on a fresh stream with \<open>next_in\<close> pointing at the first
  byte of \<open>mem\<close> (the bytes from there to the end of the underlying buffer) and the
  declared \<open>avail_in\<close>; it gives the return code and the bytes written at \<open>next_out\<close>.
  \<open>deflate z inp avail_out\<close> is \<open>deflate(&s, Z_FINISH)\<close> at \<open>Z_BEST_COMPRESSION\<close>
  on the input bytes \<open>inp\<close>; the length of the bytes written is \<open>total_out\<close>.
  \<open>hardware_concurrency\<close> is the value of \<open>std::thread::hardware_concurrency()\<close>.
\<close>

record platform =
  inflateInit :: zret
  inflate :: "nat \<Rightarrow> byte list \<Rightarrow> nat \<Rightarrow> zret \<times> byte list"
  inflateEnd :: zret
  deflateInit :: zret
  deflate :: "byte list \<Rightarrow> nat \<Rightarrow> zret \<times> byte list"
  deflateEnd :: zret
  hardware_concurrency :: nat

subsection \<open>A zlib instance: stored blocks\<close>

text \<open>
  A concrete instance of the library for evaluating the program on concrete files:
  the zlib format (RFC 1950) around deflate streams made of stored blocks only
  (RFC 1951, block type 0), which is what zlib itself emits at level 0 and reads
  at every level. Blocks with Huffman codes (types 1 and 2) are outside this
  instance: its \<open>inflate\<close> answers \<open>Z_STREAM_ERROR\<close> on them. The host of the
  instance has four hardware threads.
\<close>

definition adler32 :: "byte list \<Rightarrow> nat" where
  "adler32 bs =
     (case fold (\<lambda>x (a, b). ((a + unat x) mod 65521, (b + (a + unat x) mod 65521) mod 65521))
             bs (1, 0)
      of (a, b) \<Rightarrow> b * 65536 + a)"

definition store_be32 :: "nat \<Rightarrow> byte list" where
  "store_be32 n = rev (store_u32 n)"

definition load_be32 :: "byte list \<Rightarrow> nat" where
  "load_be32 m = load_u32 (rev (take 4 m)) 0"

definition store_u16 :: "nat \<Rightarrow> byte list" where
  "store_u16 n = [of_nat (n mod 65536), of_nat (n mod 65536 div 256)]"

function stored_blocks :: "byte list \<Rightarrow> byte list" where
  "stored_blocks bs =
     (if length bs \<le> 65535
      then 1 # store_u16 (length bs) @ store_u16 (65535 - length bs) @ bs
      else 0 # store_u16 65535 @ store_u16 0 @ take 65535 bs @ stored_blocks (drop 65535 bs))"
  by pat_completeness auto
termination
  by (relation "measure length") auto

definition deflate_stored :: "byte list \<Rightarrow> nat \<Rightarrow> zret \<times> byte list" where
  "deflate_stored inp avail_out =
     (let s = [0x78, 0x01] @ stored_blocks inp @ store_be32 (adler32 inp)
      in if length s \<le> avail_out then (Z_STREAM_END, s) else (Z_OK, take avail_out s))"

text \<open>
  The blocks of a stream: the input left, the output space and the output so far.
  A stored block is a header byte (bit 0 final, bits 1-2 the type), \<open>LEN\<close> and its
  complement \<open>NLEN\<close>, and \<open>LEN\<close> bytes. After the final block comes the Adler-32
  of the output, big-endian. With \<open>Z_FINISH\<close>, running out of input or of output
  space is \<open>Z_BUF_ERROR\<close>; the end of the stream is \<open>Z_STREAM_END\<close> whatever
  output space is left.
\<close>

function inflate_blocks :: "byte list \<Rightarrow> nat \<Rightarrow> byte list \<Rightarrow> zret \<times> byte list" where
  "inflate_blocks inp avail_out out =
     (case inp of
        [] \<Rightarrow> (Z_BUF_ERROR, out)
      | h # t \<Rightarrow>
          if unat h div 2 mod 4 = 3 then (Z_DATA_ERROR, out)
          else if unat h div 2 mod 4 \<noteq> 0 then (Z_STREAM_ERROR, out)
          else
            (case t of
               l0 # l1 # n0 # n1 # rest \<Rightarrow>
                 (let len = unat l0 + 256 * unat l1;
                      nlen = unat n0 + 256 * unat n1
                  in if len + nlen \<noteq> 65535 then (Z_DATA_ERROR, out)
                     else if length rest < len \<or> avail_out - length out < len
                     then (Z_BUF_ERROR,
                           out @ take (min len (avail_out - length out)) rest)
                     else if unat h mod 2 = 1
                     then (let trailer = drop len rest;
                               out' = out @ take len rest
                           in if length trailer < 4 then (Z_BUF_ERROR, out')
                              else if load_be32 trailer \<noteq> adler32 out'
                              then (Z_DATA_ERROR, out')
                              else (Z_STREAM_END, out'))
                     else inflate_blocks (drop len rest) avail_out (out @ take len rest))
             | _ \<Rightarrow> (Z_BUF_ERROR, out)))"
  by pat_completeness auto
termination
  by (relation "measure (\<lambda>(inp, avail_out, out). length inp)") auto

definition inflate_stored :: "nat \<Rightarrow> byte list \<Rightarrow> nat \<Rightarrow> zret \<times> byte list" where
  "inflate_stored avail_in mem avail_out =
     (case take avail_in mem of
        cmf # flg # body \<Rightarrow>
          if (256 * unat cmf + unat flg) mod 31 \<noteq> 0 \<or> unat cmf mod 16 \<noteq> 8
             \<or> unat cmf div 16 > 7
          then (Z_DATA_ERROR, [])
          else if unat flg div 32 mod 2 = 1
          then (if length body < 4 then Z_BUF_ERROR else Z_NEED_DICT, [])
          else inflate_blocks body avail_out []
      | _ \<Rightarrow> (Z_BUF_ERROR, []))"

definition zlib_stored :: platform where
  "zlib_stored =
     \<lparr>inflateInit = Z_OK, inflate = inflate_stored, inflateEnd = Z_OK,
      deflateInit = Z_OK, deflate = deflate_stored, deflateEnd = Z_OK,
      hardware_concurrency = 4\<rparr>"

subsection \<open>Workers\<close>

text \<open>
  \<open>struct Worker\<close>. \<open>input\<close> is a pointer into the file buffer, kept as the index it
  points at. The mutex belongs to the scheduler model below.
\<close>

record Worker =
  input :: nat
  input_size :: nat
  "output" :: "byte list"
  output_size :: nat
  offset :: nat
  failure :: bool
  started :: bool

definition Worker0 :: Worker where
  "Worker0 = \<lparr>input = 0, input_size = 0, output = [], output_size = 0, offset = 0,
     failure = False, started = False\<rparr>"

text \<open>
  \<open>perform_decompression\<close>: \<open>avail_in\<close> and \<open>avail_out\<close> are \<open>uInt\<close>. zlib writes at
  most \<open>avail_out\<close> bytes; what it does not write keeps the buffer's old content.
  The three calls are joined by \<open>||\<close>, so a failing call skips the later ones.
\<close>

definition perform_decompression :: "platform \<Rightarrow> byte list \<Rightarrow> Worker \<Rightarrow> Worker" where
  "perform_decompression z mem w =
     (if inflateInit z \<noteq> Z_OK then w\<lparr>failure := True\<rparr>
      else
        let avail_in = input_size w mod 2 ^ 32;
            avail_out = output_size w mod 2 ^ 32;
            r = inflate z avail_in (drop (input w) mem) avail_out;
            written = take avail_out (snd r);
            w' = w\<lparr>output := written @ drop (length written) (output w)\<rparr>
        in if fst r \<noteq> Z_STREAM_END then w'\<lparr>failure := True\<rparr>
           else if inflateEnd z \<noteq> Z_OK then w'\<lparr>failure := True\<rparr>
           else w')"

text \<open>
  \<open>perform_compression\<close>: the stream is written after the four bytes of the size
  prefix; on success \<open>output_size\<close> becomes \<open>total_out + sizeof(std::uint32_t)\<close>.
\<close>

definition perform_compression :: "platform \<Rightarrow> byte list \<Rightarrow> Worker \<Rightarrow> Worker" where
  "perform_compression z mem w =
     (if deflateInit z \<noteq> Z_OK then w\<lparr>failure := True\<rparr>
      else
        let avail_in = input_size w mod 2 ^ 32;
            avail_out = (output_size w - sizeof_uint32) mod 2 ^ 32;
            r = deflate z (take avail_in (drop (input w) mem)) avail_out;
            written = take avail_out (snd r);
            w' = w\<lparr>output := take sizeof_uint32 (output w) @ written
                          @ drop (sizeof_uint32 + length written) (output w)\<rparr>
        in if fst r \<noteq> Z_STREAM_END then w'\<lparr>failure := True\<rparr>
           else if deflateEnd z \<noteq> Z_OK then w'\<lparr>failure := True\<rparr>
           else w'\<lparr>output_size := length written + sizeof_uint32\<rparr>)"

text \<open>
  \<open>perform_job\<close>, with \<open>max_threads\<close> the value of
  \<open>std::thread::hardware_concurrency()\<close>. Nothing is done for an empty vector. With
  \<open>max_threads <= 1\<close> the function is called on every worker in order. Otherwise
  the dispatch loop sets \<open>started\<close> on a worker and hands it to a detached thread
  that runs the function on it. That loop is modelled step by step in the
  subsection on the dispatch loop below; the value given here is the vector of
  workers in every state in which the loop has ended, and from every state the
  loop can end (\<open>dispatch_loop_exit\<close> and \<open>dispatch_loop_can_exit\<close>, for workers
  not started yet and a function that leaves \<open>started\<close> alone, as the two job
  functions do).
\<close>

definition perform_job :: "nat \<Rightarrow> (Worker \<Rightarrow> Worker) \<Rightarrow> Worker list \<Rightarrow> Worker list" where
  "perform_job max_threads function workers =
     (if workers = [] then workers
      else if max_threads \<le> 1 then map function workers
      else map (\<lambda>w. function (w\<lparr>started := True\<rparr>)) workers)"

subsection \<open>Files\<close>

text \<open>
  \<open>read_file\<close>: exits when the file is shorter than \<open>minimum_size\<close>. (Failing to
  open the file is outside the model: a file is given by its content.)
\<close>

definition read_file :: "byte list \<Rightarrow> nat \<Rightarrow> error + byte list" where
  "read_file content minimum_size =
     (if minimum_size \<noteq> 0 \<and> length content < minimum_size then Inl NotEnoughBytes
      else Inr content)"

text \<open>
  \<open>write_file\<close>: \<open>start\<close> is written when it is not empty, then every worker's
  first \<open>output_size\<close> bytes. \<open>fwrite(p, size, 1, f)\<close> returns 0 when \<open>size\<close> is 0,
  which the function takes for a failed write.
\<close>

fun write_workers :: "Worker list \<Rightarrow> error + byte list" where
  "write_workers [] = Inr []"
| "write_workers (w # ws) =
     (if output_size w = 0 then Inl WriteFailed
      else case write_workers ws of
             Inl e \<Rightarrow> Inl e
           | Inr bs \<Rightarrow> Inr (take (output_size w) (output w) @ bs))"

definition write_file :: "Worker list \<Rightarrow> byte list \<Rightarrow> error + byte list" where
  "write_file workers start =
     (case write_workers workers of Inl e \<Rightarrow> Inl e | Inr bs \<Rightarrow> Inr (start @ bs))"

text \<open>The indices of the workers whose \<open>failure\<close> flag is set, in the order they are printed.\<close>

definition failed_blocks :: "Worker list \<Rightarrow> nat list" where
  "failed_blocks workers = filter (\<lambda>i. failure (workers ! i)) [0..<length workers]"

subsection \<open>decompress_file\<close>

text \<open>
  The worker set up for a block whose offset \<open>off\<close> has passed the check: the
  size prefix is read at \<open>off\<close>, the input starts after it, and the output buffer
  is a zero-filled array of \<open>uncompressed_size\<close> bytes.
\<close>

definition decompress_worker :: "byte list \<Rightarrow> nat \<Rightarrow> Worker" where
  "decompress_worker file off =
     (let file_size = length file;
          uncompressed_size = load_u32 file off;
          remaining_size = file_size - off + sizeof_uint32
      in Worker0\<lparr>input := off + sizeof_uint32, input_size := remaining_size,
           output := replicate uncompressed_size 0,
           output_size := uncompressed_size\<rparr>)"

text \<open>The loop that allocates the decompression workers, over the block indices.\<close>

fun decompress_workers :: "byte list \<Rightarrow> nat list \<Rightarrow> error + Worker list" where
  "decompress_workers file [] = Inr []"
| "decompress_workers file (i # is) =
     (let off = block_offsets file i;
          file_size = length file
      in if off + sizeof_uint32 > file_size then Inl (InvalidOffset i off)
         else (case decompress_workers file is of
                 Inl e \<Rightarrow> Inl e
               | Inr ws \<Rightarrow> Inr (decompress_worker file off # ws)))"

definition decompress_file :: "platform \<Rightarrow> byte list \<Rightarrow> error + byte list" where
  "decompress_file z content =
     (case read_file content sizeof_CompressedMapHeader of
        Inl e \<Rightarrow> Inl e
      | Inr compressed_file \<Rightarrow>
          let bc = block_count compressed_file in
          if bc > MAX_BLOCKS then Inl (InvalidBlockCount bc)
          else if bc = 0 then Inl (InvalidBlockCount bc)
          else
            (case decompress_workers compressed_file [0..<bc] of
               Inl e \<Rightarrow> Inl e
             | Inr workers0 \<Rightarrow>
                 let workers = perform_job (hardware_concurrency z)
                                 (perform_decompression z compressed_file) workers0 in
                 if failed_blocks workers \<noteq> [] then Inl (BlocksFailed (failed_blocks workers))
                 else write_file workers []))"

subsection \<open>compress_file\<close>

text \<open>
  The worker set up for the chunk at \<open>off\<close>: at most \<open>CHUNK_SIZE\<close> bytes of
  input, an output buffer of twice that plus the size prefix, zero-filled, with
  the prefix written at its start.
\<close>

definition compress_worker :: "nat \<Rightarrow> nat \<Rightarrow> Worker" where
  "compress_worker file_size off =
     (let remaining_size = (if file_size - off > CHUNK_SIZE then CHUNK_SIZE
                            else file_size - off);
          max_size = remaining_size * 2 + sizeof_uint32
      in Worker0\<lparr>offset := sizeof_uint32, input := off, input_size := remaining_size,
           output := store_u32 remaining_size @ drop sizeof_uint32 (replicate max_size 0),
           output_size := max_size\<rparr>)"

fun compress_workers :: "nat \<Rightarrow> nat list \<Rightarrow> error + Worker list" where
  "compress_workers file_size [] = Inr []"
| "compress_workers file_size (i # is) =
     (let off = i * CHUNK_SIZE
      in if off + sizeof_uint32 > file_size then Inl (InvalidOffset i off)
         else (case compress_workers file_size is of
                 Inl e \<Rightarrow> Inl e
               | Inr ws \<Rightarrow> Inr (compress_worker file_size off # ws)))"

text \<open>The loop that sets the offsets, from the running offset \<open>current_offset\<close>.\<close>

fun set_offsets :: "nat \<Rightarrow> Worker list \<Rightarrow> error + nat list" where
  "set_offsets current_offset [] = Inr []"
| "set_offsets current_offset (w # ws) =
     (if current_offset > UINT32_MAX then Inl (SizeExceeded current_offset)
      else case set_offsets (current_offset + output_size w) ws of
             Inl e \<Rightarrow> Inl e
           | Inr os \<Rightarrow> Inr (current_offset # os))"

text \<open>
  The header vector: zero-filled, \<open>block_count\<close> at 0 and the offsets written so
  far in the table; the entries from \<open>block_count\<close> on stay zero.
\<close>

definition header_bytes :: "nat \<Rightarrow> nat list \<Rightarrow> byte list" where
  "header_bytes bc offs =
     store_u32 bc @ concat (map store_u32 offs)
       @ replicate (sizeof_CompressedMapHeader - sizeof_uint32 - sizeof_uint32 * length offs) 0"

definition compress_file :: "platform \<Rightarrow> byte list \<Rightarrow> error + byte list" where
  "compress_file z content =
     (case read_file content 0 of
        Inl e \<Rightarrow> Inl e
      | Inr uncompressed_file \<Rightarrow>
          let file_size = length uncompressed_file;
              bc = file_size div CHUNK_SIZE + (if file_size mod CHUNK_SIZE > 0 then 1 else 0)
          in
          if bc > MAX_BLOCKS then Inl (MaxBlocksExceeded bc)
          else
            (case compress_workers file_size [0..<bc] of
               Inl e \<Rightarrow> Inl e
             | Inr workers0 \<Rightarrow>
                 let workers = perform_job (hardware_concurrency z)
                                 (perform_compression z uncompressed_file) workers0 in
                 if failed_blocks workers \<noteq> [] then Inl (BlocksFailed (failed_blocks workers))
                 else
                   (case set_offsets sizeof_CompressedMapHeader workers of
                      Inl e \<Rightarrow> Inl e
                    | Inr offs \<Rightarrow> write_file workers (header_bytes bc offs))))"

subsection \<open>The dispatch loop of perform_job\<close>

text \<open>
  The threaded path of \<open>perform_job\<close> (\<open>max_threads > 1\<close>), as an interleaving of
  the main thread and the detached threads. The state is the vector of workers,
  the mutex of every worker (\<open>True\<close> when locked) and the place of the main thread
  in its loop. \<open>perform_job\<close> locks every mutex before the loop; a job function
  unlocks its worker's mutex as its last action, and nothing else unlocks one that
  is held.
\<close>

text \<open>\<open>next_worker\<close>: the first worker not started, as its index.\<close>

fun next_worker :: "Worker list \<Rightarrow> nat option" where
  "next_worker [] = None"
| "next_worker (w # ws) = (if \<not> started w then Some 0 else map_option Suc (next_worker ws))"

text \<open>
  \<open>busy_workers\<close>: the count after the first \<open>k\<close> workers, and the whole loop.
  \<open>try_lock\<close> succeeds on an unlocked mutex, which is unlocked again at once;
  otherwise \<open>started\<close> is added to the count.
\<close>

fun busy_below :: "Worker list \<Rightarrow> bool list \<Rightarrow> nat \<Rightarrow> nat" where
  "busy_below ws m 0 = 0"
| "busy_below ws m (Suc k) =
     (if \<not> m ! k then busy_below ws m k
      else busy_below ws m k + (if started (ws ! k) then 1 else 0))"

definition busy_workers :: "Worker list \<Rightarrow> bool list \<Rightarrow> nat" where
  "busy_workers ws m = busy_below ws m (length ws)"

text \<open>
  The main thread is at the top of the loop (\<open>Poll\<close>), inside \<open>busy_workers\<close>
  with the result of \<open>next_worker\<close>, the index of the worker it looks at next and
  the count so far (\<open>Scan\<close>), or has left the loop (\<open>Exit\<close>). Other threads can
  run between any two workers \<open>busy_workers\<close> looks at.
\<close>

datatype pc = Poll | Scan "nat option" nat nat | Exit

record sched =
  workers :: "Worker list"
  mutex :: "bool list"
  pc :: pc

definition init_sched :: "Worker list \<Rightarrow> sched" where
  "init_sched ws = \<lparr>workers = ws, mutex = replicate (length ws) True, pc = Poll\<rparr>"

text \<open>
  One step of the main thread. At the end of the scan it leaves the loop when
  nothing is busy and nothing is left to start, starts \<open>next\<close> when there is one
  and fewer than \<open>max_threads\<close> are busy, and sleeps otherwise.
\<close>

definition main_step :: "nat \<Rightarrow> sched \<Rightarrow> sched" where
  "main_step max_threads s =
     (case pc s of
        Poll \<Rightarrow> s\<lparr>pc := Scan (next_worker (workers s)) 0 0\<rparr>
      | Scan next i busy_count \<Rightarrow>
          if i < length (workers s)
          then (if \<not> mutex s ! i then s\<lparr>pc := Scan next (i + 1) busy_count\<rparr>
                else s\<lparr>pc := Scan next (i + 1)
                             (busy_count + (if started (workers s ! i) then 1 else 0))\<rparr>)
          else (case next of
                  None \<Rightarrow> if busy_count = 0 then s\<lparr>pc := Exit\<rparr> else s\<lparr>pc := Poll\<rparr>
                | Some k \<Rightarrow>
                    if busy_count < max_threads
                    then s\<lparr>workers := (workers s)[k := (workers s ! k)\<lparr>started := True\<rparr>],
                           pc := Poll\<rparr>
                    else s\<lparr>pc := Poll\<rparr>)
      | Exit \<Rightarrow> s)"

text \<open>The thread of worker \<open>i\<close> runs the job function, which ends by unlocking the mutex.\<close>

definition thread_step :: "(Worker \<Rightarrow> Worker) \<Rightarrow> nat \<Rightarrow> sched \<Rightarrow> sched" where
  "thread_step function i s =
     s\<lparr>workers := (workers s)[i := function (workers s ! i)],
       mutex := (mutex s)[i := False]\<rparr>"

text \<open>
  A step of the program: the main thread moves, or the thread of a worker that
  has been started and still holds its mutex finishes.
\<close>

inductive step :: "nat \<Rightarrow> (Worker \<Rightarrow> Worker) \<Rightarrow> sched \<Rightarrow> sched \<Rightarrow> bool"
  for max_threads :: nat and "function" :: "Worker \<Rightarrow> Worker" where
  main: "pc s \<noteq> Exit \<Longrightarrow> step max_threads function s (main_step max_threads s)"
| thread: "i < length (workers s) \<Longrightarrow> started (workers s ! i) \<Longrightarrow> mutex s ! i \<Longrightarrow>
     step max_threads function s (thread_step function i s)"

inductive reachable :: "nat \<Rightarrow> (Worker \<Rightarrow> Worker) \<Rightarrow> Worker list \<Rightarrow> sched \<Rightarrow> bool"
  for max_threads :: nat and "function" :: "Worker \<Rightarrow> Worker" and ws :: "Worker list" where
  init: "reachable max_threads function ws (init_sched ws)"
| step: "reachable max_threads function ws s \<Longrightarrow> step max_threads function s s' \<Longrightarrow>
     reachable max_threads function ws s'"

text \<open>
  Worker \<open>k\<close> is the lowest-index worker not started yet.
\<close>

definition lowest_pending :: "Worker list \<Rightarrow> nat \<Rightarrow> bool" where
  "lowest_pending ws k \<longleftrightarrow>
     k < length ws \<and> \<not> started (ws ! k) \<and> (\<forall>j<k. started (ws ! j))"

subsection \<open>Notions used to state the properties\<close>

text \<open>Chunk \<open>i\<close> of a file: the bytes \<open>[i * CHUNK_SIZE, min ((i + 1) * CHUNK_SIZE) size)\<close>.\<close>

definition chunk :: "byte list \<Rightarrow> nat \<Rightarrow> byte list" where
  "chunk B i = take CHUNK_SIZE (drop (i * CHUNK_SIZE) B)"

text \<open>
  What a compression job makes of a chunk: the three zlib calls succeed
  (\<open>deflate_ok\<close>), the stream they leave in the buffer of twice the chunk's size
  (\<open>deflated\<close>), and the record written to the container, the size prefix and
  the stream (\<open>chunk_record\<close>).
\<close>

definition deflate_ok :: "platform \<Rightarrow> byte list \<Rightarrow> bool" where
  "deflate_ok z inp \<longleftrightarrow>
     deflateInit z = Z_OK \<and> fst (deflate z inp (2 * length inp)) = Z_STREAM_END
       \<and> deflateEnd z = Z_OK"

definition deflated :: "platform \<Rightarrow> byte list \<Rightarrow> byte list" where
  "deflated z inp = take (2 * length inp) (snd (deflate z inp (2 * length inp)))"

definition chunk_record :: "platform \<Rightarrow> byte list \<Rightarrow> byte list" where
  "chunk_record z inp = store_u32 (length inp) @ deflated z inp"

text \<open>
  The block count \<open>compress_file\<close> computes for a file of \<open>n\<close> bytes, the
  records of its first \<open>bc\<close> chunks, and the offset of record \<open>i\<close> when the
  records are laid out one after the other behind the header.
\<close>

definition chunk_count :: "nat \<Rightarrow> nat" where
  "chunk_count n = n div CHUNK_SIZE + (if n mod CHUNK_SIZE > 0 then 1 else 0)"

definition chunk_records :: "platform \<Rightarrow> byte list \<Rightarrow> nat \<Rightarrow> byte list list" where
  "chunk_records z B bc = map (\<lambda>i. chunk_record z (chunk B i)) [0..<bc]"

definition record_offset :: "platform \<Rightarrow> byte list \<Rightarrow> nat \<Rightarrow> nat" where
  "record_offset z B i =
     sizeof_CompressedMapHeader + sum_list (map length (chunk_records z B i))"

text \<open>
  What a decompression job makes of the block at offset \<open>off\<close> of a container:
  the three zlib calls succeed (\<open>inflate_ok\<close>) on the input the worker declares,
  and the bytes inflate writes into the buffer (\<open>inflated\<close>).
\<close>

definition inflate_ok :: "platform \<Rightarrow> byte list \<Rightarrow> nat \<Rightarrow> bool" where
  "inflate_ok z file off \<longleftrightarrow>
     inflateInit z = Z_OK
     \<and> fst (inflate z ((length file - off + 4) mod 2 ^ 32) (drop (off + 4) file)
               (load_u32 file off)) = Z_STREAM_END
     \<and> inflateEnd z = Z_OK"

definition inflated :: "platform \<Rightarrow> byte list \<Rightarrow> nat \<Rightarrow> byte list" where
  "inflated z file off =
     take (load_u32 file off)
       (snd (inflate z ((length file - off + 4) mod 2 ^ 32) (drop (off + 4) file)
               (load_u32 file off)))"

text \<open>
  The contract of the codec that a round trip relies on: for an input that the
  compression job deflates successfully, inflate started on the stream, followed
  by any bytes and declared with at least the stream's length, with room for
  exactly the input's length, ends the stream having written the input.
\<close>

definition inflate_inverts_deflate :: "platform \<Rightarrow> bool" where
  "inflate_inverts_deflate z \<longleftrightarrow>
     inflateInit z = Z_OK \<and> inflateEnd z = Z_OK
     \<and> (\<forall>inp rest avail_in.
           deflate_ok z inp \<and> length (deflated z inp) \<le> avail_in \<longrightarrow>
           inflate z avail_in (deflated z inp @ rest) (length inp) = (Z_STREAM_END, inp))"

text \<open>
  The contract of the codec on output space: when a stream ends having written
  \<open>out\<close>, \<open>inflate(Z_FINISH)\<close> on the same input with room for fewer bytes than
  \<open>out\<close> does not return \<open>Z_STREAM_END\<close> (zlib returns \<open>Z_BUF_ERROR\<close>).
\<close>

definition inflate_needs_room :: "platform \<Rightarrow> bool" where
  "inflate_needs_room z \<longleftrightarrow>
     (\<forall>avail_in mem cap cap' out.
        inflate z avail_in mem cap' = (Z_STREAM_END, out) \<and> cap < length out \<longrightarrow>
        fst (inflate z avail_in mem cap) \<noteq> Z_STREAM_END)"

section \<open>Properties\<close>

lemma sizeof_CompressedMapHeader_eq: "sizeof_CompressedMapHeader = 262144"
  by (simp add: sizeof_CompressedMapHeader_def sizeof_uint32_def MAX_BLOCKS_def)

subsection \<open>perform_job and the started flag\<close>

text \<open>
  The job functions neither read nor write \<open>started\<close>, and nothing the drivers
  do with the workers after \<open>perform_job\<close> reads it: the two paths of
  \<open>perform_job\<close> give the drivers the same workers.
\<close>

lemma perform_compression_started:
  "perform_compression z mem (w\<lparr>started := b\<rparr>) = (perform_compression z mem w)\<lparr>started := b\<rparr>"
  by (simp add: perform_compression_def Let_def)

lemma perform_decompression_started:
  "perform_decompression z mem (w\<lparr>started := b\<rparr>)
     = (perform_decompression z mem w)\<lparr>started := b\<rparr>"
  by (simp add: perform_decompression_def Let_def)

lemma perform_compression_keeps_started:
  "started (perform_compression z mem w) = started w"
  by (simp add: perform_compression_def Let_def)

lemma perform_decompression_keeps_started:
  "started (perform_decompression z mem w) = started w"
  by (simp add: perform_decompression_def Let_def)

lemma perform_job_compression:
  "perform_job max_threads (perform_compression z mem) ws
     = map (\<lambda>w. w\<lparr>started := (if max_threads \<le> 1 then started w else True)\<rparr>)
         (map (perform_compression z mem) ws)"
  by (simp add: perform_job_def perform_compression_started)

lemma perform_job_decompression:
  "perform_job max_threads (perform_decompression z mem) ws
     = map (\<lambda>w. w\<lparr>started := (if max_threads \<le> 1 then started w else True)\<rparr>)
         (map (perform_decompression z mem) ws)"
  by (simp add: perform_job_def perform_decompression_started)

lemma failed_blocks_started:
  "failed_blocks (map (\<lambda>w. w\<lparr>started := b w\<rparr>) ws) = failed_blocks ws"
  unfolding failed_blocks_def by (rule filter_cong) simp_all

lemma set_offsets_started:
  "set_offsets cur (map (\<lambda>w. w\<lparr>started := b w\<rparr>) ws) = set_offsets cur ws"
  by (induction ws arbitrary: cur) simp_all

lemma write_workers_started:
  "write_workers (map (\<lambda>w. w\<lparr>started := b w\<rparr>) ws) = write_workers ws"
  by (induction ws) (simp_all split: sum.splits)

lemma write_file_started:
  "write_file (map (\<lambda>w. w\<lparr>started := b w\<rparr>) ws) start = write_file ws start"
  by (simp add: write_file_def write_workers_started)

subsection \<open>Little-endian words\<close>

lemma u32_digits:
  fixes n :: nat
  assumes "n < 2 ^ 32"
  shows "n mod 256 + 256 * (n div 256 mod 256) + 65536 * (n div 65536 mod 256)
           + 16777216 * (n div 16777216 mod 256) = n"
proof -
  have e1: "n div 65536 = n div 256 div 256"
    using div_mult2_eq[of n 256 256] by simp
  have e2: "n div 16777216 = n div 65536 div 256"
    using div_mult2_eq[of n 65536 256] by simp
  have d: "n div 16777216 < 256"
    using assms by (simp add: less_mult_imp_div_less)
  then have m3: "n div 16777216 mod 256 = n div 16777216" by simp
  have a: "n = n mod 256 + 256 * (n div 256)" by simp
  have b: "n div 256 = n div 256 mod 256 + 256 * (n div 65536)"
    unfolding e1 by simp
  have c: "n div 65536 = n div 65536 mod 256 + 256 * (n div 16777216)"
    unfolding e2 by simp
  show ?thesis
    unfolding m3 using a b c by linarith
qed

lemma unat_byte_of_nat: "unat (of_nat k :: byte) = k mod 256"
  by (simp add: unat_of_nat)

lemma unat_byte_lt: "unat (x :: byte) < 256"
  using unsigned_less[of x, where 'a = nat] by simp

lemma load_u32_store_u32: "load_u32 (store_u32 n @ rest) 0 = n mod 2 ^ 32"
proof -
  have "n mod 2 ^ 32 < (2::nat) ^ 32" by simp
  from u32_digits[OF this] show ?thesis
    unfolding load_u32_def store_u32_def
    by (simp only: unat_byte_of_nat append_Cons nth_Cons_0 nth_Cons_Suc One_nat_def
          add_0 add_Suc_right add_Suc numeral_2_eq_2 numeral_3_eq_3 add_0_right)
qed

lemma load_u32_lt: "load_u32 m a < 2 ^ 32"
  using unat_byte_lt[of "m ! a"] unat_byte_lt[of "m ! (a+1)"] unat_byte_lt[of "m ! (a+2)"]
        unat_byte_lt[of "m ! (a+3)"]
  by (simp add: load_u32_def)

lemma load_u32_append_left: "a + 4 \<le> length xs \<Longrightarrow> load_u32 (xs @ ys) a = load_u32 xs a"
  by (simp add: load_u32_def nth_append)

lemma load_u32_append_right:
  assumes "length xs \<le> a"
  shows "load_u32 (xs @ ys) a = load_u32 ys (a - length xs)"
proof -
  have "(xs @ ys) ! (a + k) = ys ! (a - length xs + k)" for k
    using assms by (simp add: nth_append)
  from this[of 0] this[of 1] this[of 2] this[of 3] show ?thesis
    by (simp add: load_u32_def)
qed

lemma load_u32_drop: "k + a + 4 \<le> length m \<Longrightarrow> load_u32 (drop k m) a = load_u32 m (k + a)"
  by (simp add: load_u32_def add.assoc)

lemma length_store_u32: "length (store_u32 n) = 4"
  by (simp add: store_u32_def)

subsection \<open>Header validation of decompress_file\<close>

lemma decompress_file_short:
  "length content < sizeof_CompressedMapHeader \<Longrightarrow> decompress_file z content = Inl NotEnoughBytes"
  by (simp add: decompress_file_def read_file_def sizeof_CompressedMapHeader_eq)

lemma decompress_file_bad_count:
  "sizeof_CompressedMapHeader \<le> length content \<Longrightarrow>
   block_count content = 0 \<or> MAX_BLOCKS < block_count content \<Longrightarrow>
   decompress_file z content = Inl (InvalidBlockCount (block_count content))"
  by (auto simp: decompress_file_def read_file_def Let_def)

text \<open>
  C5: \<open>decompress_file\<close> needs a file of at least \<open>sizeof(CompressedMapHeader)\<close>
  bytes (a shorter one ends the program in \<open>read_file\<close>), and a header whose
  \<open>block_count\<close> is 0 or above 65535 ends it with the invalid block count
  diagnostic; in both cases nothing is written (the result is an error other than
  \<open>WriteFailed\<close>, so \<open>write_file\<close> was not reached).
\<close>

theorem decompress_file_rejects_block_count:
  "(length content < sizeof_CompressedMapHeader \<longrightarrow>
      decompress_file z content = Inl NotEnoughBytes)
   \<and> (sizeof_CompressedMapHeader \<le> length content
        \<and> (block_count content = 0 \<or> 65535 < block_count content) \<longrightarrow>
      decompress_file z content = Inl (InvalidBlockCount (block_count content)))"
  using decompress_file_short[of content z] decompress_file_bad_count[of content z]
  by (simp add: MAX_BLOCKS_def)

lemma block_count_zeros: "block_count (replicate 262144 0) = 0"
  by (simp add: block_count_def load_u32_def)

lemma block_count_store: "block_count (store_u32 n @ rest) = n mod 2 ^ 32"
  by (simp add: block_count_def load_u32_store_u32)

theorem decompress_file_rejects_block_count_witness:
  "decompress_file zlib_stored [] = Inl NotEnoughBytes
   \<and> decompress_file zlib_stored (replicate 262144 0) = Inl (InvalidBlockCount 0)
   \<and> decompress_file zlib_stored (store_u32 65536 @ replicate 262140 0)
       = Inl (InvalidBlockCount 65536)"
  using decompress_file_rejects_block_count[of "[]" zlib_stored]
    decompress_file_rejects_block_count[of "replicate 262144 0" zlib_stored]
    decompress_file_rejects_block_count[of "store_u32 65536 @ replicate 262140 0" zlib_stored]
  by (simp add: sizeof_CompressedMapHeader_eq block_count_zeros block_count_store length_store_u32)

subsection \<open>Offset validation of decompress_file\<close>

lemma decompress_workers_ok:
  "\<forall>i\<in>set is. block_offsets file i + sizeof_uint32 \<le> length file \<Longrightarrow>
   decompress_workers file is = Inr (map (\<lambda>i. decompress_worker file (block_offsets file i)) is)"
  by (induction "is") (simp_all add: Let_def)

lemma decompress_workers_first_bad:
  "\<forall>j\<in>set xs. block_offsets file j + sizeof_uint32 \<le> length file \<Longrightarrow>
   length file < block_offsets file i + sizeof_uint32 \<Longrightarrow>
   decompress_workers file (xs @ i # ys) = Inl (InvalidOffset i (block_offsets file i))"
  by (induction xs) (simp_all add: Let_def)

lemma decompress_workers_Inl:
  "decompress_workers file is = Inl e \<Longrightarrow>
   \<exists>i\<in>set is. length file < block_offsets file i + sizeof_uint32
      \<and> e = InvalidOffset i (block_offsets file i)"
  by (induction "is") (auto simp: Let_def split: if_splits sum.splits)

lemma least_bad_index:
  fixes P :: "nat \<Rightarrow> bool"
  assumes "\<exists>i<n. P i"
  shows "\<exists>i<n. P i \<and> (\<forall>j<i. \<not> P j) \<and> [0..<n] = [0..<i] @ i # [Suc i..<n]"
proof -
  from assms obtain k where k: "k < n" "P k" by blast
  define i where "i = (LEAST i. P i)"
  have Pi: "P i" unfolding i_def using k(2) by (rule LeastI)
  have le: "i \<le> k" unfolding i_def using k(2) by (rule Least_le)
  have mn: "\<forall>j<i. \<not> P j" unfolding i_def using not_less_Least by blast
  have "i < n" using le k(1) by simp
  then have "[0..<n] = [0..<i] @ i # [Suc i..<n]"
    using upt_add_eq_append[of 0 i "n - i"] upt_conv_Cons[of i n] by simp
  with Pi mn \<open>i < n\<close> show ?thesis by blast
qed

lemma decompress_file_header_ok:
  "sizeof_CompressedMapHeader \<le> length content \<Longrightarrow> 0 < block_count content \<Longrightarrow>
   block_count content \<le> MAX_BLOCKS \<Longrightarrow>
   decompress_file z content =
     (case decompress_workers content [0..<block_count content] of
        Inl e \<Rightarrow> Inl e
      | Inr workers0 \<Rightarrow>
          let workers = map (perform_decompression z content) workers0 in
          if failed_blocks workers \<noteq> [] then Inl (BlocksFailed (failed_blocks workers))
          else write_file workers [])"
  unfolding decompress_file_def read_file_def Let_def perform_job_decompression
    failed_blocks_started write_file_started
  by simp

lemma write_workers_not_InvalidOffset: "write_workers ws \<noteq> Inl (InvalidOffset i off)"
  by (induction ws) (auto split: sum.splits)

lemma decompress_file_bad_offset:
  assumes "sizeof_CompressedMapHeader \<le> length content" "0 < block_count content"
    "block_count content \<le> MAX_BLOCKS"
    "\<exists>i<block_count content. length content < block_offsets content i + sizeof_uint32"
  shows "\<exists>i<block_count content. length content < block_offsets content i + sizeof_uint32
     \<and> (\<forall>j<i. block_offsets content j + sizeof_uint32 \<le> length content)
     \<and> decompress_file z content = Inl (InvalidOffset i (block_offsets content i))"
proof -
  from least_bad_index[OF assms(4)] obtain i where i: "i < block_count content"
    "length content < block_offsets content i + sizeof_uint32"
    "\<forall>j<i. \<not> length content < block_offsets content j + sizeof_uint32"
    "[0..<block_count content] = [0..<i] @ i # [Suc i..<block_count content]"
    by blast
  have "decompress_workers content [0..<block_count content]
      = Inl (InvalidOffset i (block_offsets content i))"
    unfolding i(4) using i(2,3) by (intro decompress_workers_first_bad) (auto simp: not_less)
  then have "decompress_file z content = Inl (InvalidOffset i (block_offsets content i))"
    by (simp add: decompress_file_header_ok[OF assms(1-3)])
  with i show ?thesis by (auto simp: not_less)
qed

lemma decompress_file_good_offsets:
  assumes "\<forall>i<block_count content. block_offsets content i + sizeof_uint32 \<le> length content"
  shows "decompress_file z content \<noteq> Inl (InvalidOffset i off)"
proof -
  have "decompress_workers content [0..<block_count content]
     = Inr (map (\<lambda>i. decompress_worker content (block_offsets content i)) [0..<block_count content])"
    using assms by (intro decompress_workers_ok) simp
  then show ?thesis
    using write_workers_not_InvalidOffset
    by (auto simp: decompress_file_def read_file_def Let_def write_file_def split: sum.splits)
qed

text \<open>
  C6: on a file with a valid header, if some of the first \<open>block_count\<close> offsets
  has \<open>block_offsets[i] + 4 > file_size\<close>, \<open>decompress_file\<close> ends with the
  invalid offset diagnostic of the first such block, before any job runs and
  without writing; and if no offset among the first \<open>block_count\<close> does, the
  result is never an invalid offset error, whatever the file.
\<close>

theorem decompress_file_offset_validation:
  "(sizeof_CompressedMapHeader \<le> length content \<and> 0 < block_count content
      \<and> block_count content \<le> 65535
      \<and> (\<exists>i<block_count content. block_offsets content i + 4 > length content) \<longrightarrow>
    (\<exists>i<block_count content. block_offsets content i + 4 > length content
       \<and> (\<forall>j<i. block_offsets content j + 4 \<le> length content)
       \<and> decompress_file z content = Inl (InvalidOffset i (block_offsets content i))))
   \<and> ((\<forall>i<block_count content. block_offsets content i + 4 \<le> length content) \<longrightarrow>
    (\<forall>i off. decompress_file z content \<noteq> Inl (InvalidOffset i off)))"
  using decompress_file_bad_offset[of content z] decompress_file_good_offsets[of content z]
  by (simp add: sizeof_uint32_def MAX_BLOCKS_def)


lemma length_concat_store_u32: "length (concat (map store_u32 offs)) = 4 * length offs"
  by (induction offs) (simp_all add: length_store_u32)

lemma length_header_bytes:
  "length offs \<le> MAX_BLOCKS \<Longrightarrow> length (header_bytes bc offs) = sizeof_CompressedMapHeader"
  by (simp add: header_bytes_def length_store_u32 length_concat_store_u32
        sizeof_CompressedMapHeader_def sizeof_uint32_def)

lemma block_count_header_bytes: "block_count (header_bytes bc offs @ rest) = bc mod 2 ^ 32"
  by (simp add: header_bytes_def block_count_def load_u32_store_u32)

lemma load_u32_concat_store_u32:
  "i < length offs \<Longrightarrow>
   load_u32 (concat (map store_u32 offs) @ rest) (4 * i) = offs ! i mod 2 ^ 32"
proof (induction offs arbitrary: i)
  case Nil
  then show ?case by simp
next
  case (Cons x offs)
  show ?case
  proof (cases i)
    case 0
    then show ?thesis by (simp add: load_u32_store_u32)
  next
    case (Suc k)
    then have "k < length offs" using Cons.prems by simp
    from Cons.IH[OF this] show ?thesis
      using load_u32_append_right[of "store_u32 x" "4 * i" "concat (map store_u32 offs) @ rest"]
      by (simp add: Suc length_store_u32)
  qed
qed

lemma block_offsets_header_bytes:
  assumes "i < length offs"
  shows "block_offsets (header_bytes bc offs @ rest) i = offs ! i mod 2 ^ 32"
proof -
  have "block_offsets (header_bytes bc offs @ rest) i
      = load_u32 (store_u32 bc @ (concat (map store_u32 offs) @ tl0 @ rest)) (4 + 4 * i)"
    if "tl0 = replicate (sizeof_CompressedMapHeader - sizeof_uint32 - sizeof_uint32 * length offs) 0"
    for tl0 :: "byte list"
    using that by (simp add: block_offsets_def header_bytes_def sizeof_uint32_def)
  then show ?thesis
    using load_u32_append_right[of "store_u32 bc" "4 + 4 * i"] load_u32_concat_store_u32[OF assms]
    by (simp add: length_store_u32)
qed

theorem decompress_file_offset_validation_witness:
  "decompress_file zlib_stored (header_bytes 1 [262144]) = Inl (InvalidOffset 0 262144)
   \<and> decompress_file zlib_stored (header_bytes 1 [0]) \<noteq> Inl (InvalidOffset 0 0)"
  using decompress_file_offset_validation[of "header_bytes 1 [262144]" zlib_stored]
    decompress_file_offset_validation[of "header_bytes 1 [0]" zlib_stored]
    block_count_header_bytes[of 1 "[262144]" "[]"] block_count_header_bytes[of 1 "[0]" "[]"]
    block_offsets_header_bytes[of 0 "[262144]" 1 "[]"] block_offsets_header_bytes[of 0 "[0]" 1 "[]"]
  by (simp add: length_header_bytes MAX_BLOCKS_def sizeof_CompressedMapHeader_eq)

subsection \<open>Chunk planning of compress_file\<close>

lemma compress_workers_ok:
  "\<forall>i\<in>set is. i * CHUNK_SIZE + sizeof_uint32 \<le> n \<Longrightarrow>
   compress_workers n is = Inr (map (\<lambda>i. compress_worker n (i * CHUNK_SIZE)) is)"
  by (induction "is") (simp_all add: Let_def)

lemma compress_workers_first_bad:
  "\<forall>j\<in>set xs. j * CHUNK_SIZE + sizeof_uint32 \<le> n \<Longrightarrow>
   n < i * CHUNK_SIZE + sizeof_uint32 \<Longrightarrow>
   compress_workers n (xs @ i # ys) = Inl (InvalidOffset i (i * CHUNK_SIZE))"
  by (induction xs) (simp_all add: Let_def)

lemma full_chunk_fits:
  assumes "i < n div CHUNK_SIZE"
  shows "i * CHUNK_SIZE + CHUNK_SIZE \<le> n"
proof -
  have "Suc i * CHUNK_SIZE \<le> (n div CHUNK_SIZE) * CHUNK_SIZE"
    using assms by (intro mult_le_mono1) simp
  also have "\<dots> \<le> n" by simp
  finally show ?thesis by simp
qed

lemma full_chunk_offset_ok: "i < n div CHUNK_SIZE \<Longrightarrow> i * CHUNK_SIZE + sizeof_uint32 \<le> n"
  using full_chunk_fits[of i n] by (simp add: CHUNK_SIZE_def sizeof_uint32_def)

lemma last_chunk_offset: "n div CHUNK_SIZE * CHUNK_SIZE + n mod CHUNK_SIZE = n"
  by simp

lemma compress_file_unfold:
  "compress_file z B =
     (if chunk_count (length B) > MAX_BLOCKS then Inl (MaxBlocksExceeded (chunk_count (length B)))
      else
        (case compress_workers (length B) [0..<chunk_count (length B)] of
           Inl e \<Rightarrow> Inl e
         | Inr workers0 \<Rightarrow>
             let workers = map (perform_compression z B) workers0 in
             if failed_blocks workers \<noteq> [] then Inl (BlocksFailed (failed_blocks workers))
             else
               (case set_offsets sizeof_CompressedMapHeader workers of
                  Inl e \<Rightarrow> Inl e
                | Inr offs \<Rightarrow> write_file workers (header_bytes (chunk_count (length B)) offs))))"
  unfolding compress_file_def read_file_def chunk_count_def Let_def perform_job_compression
    failed_blocks_started set_offsets_started write_file_started
  by (simp split del: if_split)

lemma compress_file_too_many:
  "MAX_BLOCKS < chunk_count (length B) \<Longrightarrow>
   compress_file z B = Inl (MaxBlocksExceeded (chunk_count (length B)))"
  by (simp add: compress_file_unfold)

lemma compress_file_short_tail:
  assumes "0 < length B mod CHUNK_SIZE" "length B mod CHUNK_SIZE < sizeof_uint32"
    "length B div CHUNK_SIZE < MAX_BLOCKS"
  shows "compress_file z B
    = Inl (InvalidOffset (length B div CHUNK_SIZE) (length B div CHUNK_SIZE * CHUNK_SIZE))"
proof -
  define n where "n = length B"
  define q where "q = n div CHUNK_SIZE"
  have bc: "chunk_count n = Suc q"
    using assms(1) by (simp add: n_def q_def chunk_count_def)
  have good: "\<forall>j\<in>set [0..<q]. j * CHUNK_SIZE + sizeof_uint32 \<le> n"
    using full_chunk_offset_ok[of _ n] by (simp add: q_def)
  have bad: "n < q * CHUNK_SIZE + sizeof_uint32"
    using last_chunk_offset[of n] assms(2) unfolding q_def n_def by linarith
  have "compress_workers n ([0..<q] @ q # []) = Inl (InvalidOffset q (q * CHUNK_SIZE))"
    using good bad by (rule compress_workers_first_bad)
  then have "compress_workers n [0..<Suc q] = Inl (InvalidOffset q (q * CHUNK_SIZE))"
    by simp
  moreover have "\<not> Suc q > MAX_BLOCKS" using assms(3) by (simp add: q_def n_def)
  ultimately show ?thesis
    unfolding compress_file_unfold n_def[symmetric] bc q_def[symmetric]
    by simp
qed

lemma chunk_count_offset_ok:
  assumes "n mod CHUNK_SIZE = 0 \<or> sizeof_uint32 \<le> n mod CHUNK_SIZE"
    and "i < chunk_count n"
  shows "i * CHUNK_SIZE + sizeof_uint32 \<le> n"
proof (cases "i < n div CHUNK_SIZE")
  case True
  then show ?thesis by (rule full_chunk_offset_ok)
next
  case False
  with assms(2) have iq: "i = n div CHUNK_SIZE" and pos: "0 < n mod CHUNK_SIZE"
    by (auto simp: chunk_count_def split: if_splits)
  with assms(1) have "sizeof_uint32 \<le> n mod CHUNK_SIZE" by simp
  then show ?thesis using last_chunk_offset[of n] unfolding iq by linarith
qed

lemma compress_workers_plan:
  assumes "n mod CHUNK_SIZE = 0 \<or> sizeof_uint32 \<le> n mod CHUNK_SIZE"
  shows "compress_workers n [0..<chunk_count n]
     = Inr (map (\<lambda>i. compress_worker n (i * CHUNK_SIZE)) [0..<chunk_count n])"
  using chunk_count_offset_ok[OF assms] by (intro compress_workers_ok) simp

subsection \<open>Compression jobs\<close>

lemma length_chunk:
  "i * CHUNK_SIZE \<le> length B \<Longrightarrow>
   length (chunk B i) = (if length B - i * CHUNK_SIZE > CHUNK_SIZE then CHUNK_SIZE
                         else length B - i * CHUNK_SIZE)"
  by (simp add: chunk_def)

lemma length_chunk_le: "length (chunk B i) \<le> CHUNK_SIZE"
  by (simp add: chunk_def)

lemma length_deflated_le: "length (deflated z inp) \<le> 2 * length inp"
  by (simp add: deflated_def)

lemma compress_worker_fields:
  assumes "i * CHUNK_SIZE \<le> length B"
  shows "input (compress_worker (length B) (i * CHUNK_SIZE)) = i * CHUNK_SIZE"
    and "input_size (compress_worker (length B) (i * CHUNK_SIZE)) = length (chunk B i)"
    and "output_size (compress_worker (length B) (i * CHUNK_SIZE)) = 2 * length (chunk B i) + 4"
    and "output (compress_worker (length B) (i * CHUNK_SIZE))
          = store_u32 (length (chunk B i)) @ replicate (2 * length (chunk B i)) 0"
    and "failure (compress_worker (length B) (i * CHUNK_SIZE)) = False"
  using assms
  by (simp_all add: compress_worker_def Worker0_def Let_def length_chunk sizeof_uint32_def)

lemma take_min_length: "take (min (length xs) n) xs = take n xs"
  by (simp add: min_def)

lemma chunk_input:
  "take (length (chunk B i) mod 4294967296) (drop (i * CHUNK_SIZE) B) = chunk B i"
proof -
  have "length (chunk B i) < 4294967296"
    using length_chunk_le[of B i] by (simp add: CHUNK_SIZE_def)
  then show ?thesis by (simp add: chunk_def min_def)
qed

lemma chunk_avail_out:
  "(2 * length (chunk B i) + 4 - sizeof_uint32) mod 4294967296 = 2 * length (chunk B i)"
  "2 * length (chunk B i) mod 4294967296 = 2 * length (chunk B i)"
  using length_chunk_le[of B i] by (simp_all add: CHUNK_SIZE_def sizeof_uint32_def)

lemma perform_compression_failure:
  assumes "i * CHUNK_SIZE \<le> length B"
  shows "failure (perform_compression z B (compress_worker (length B) (i * CHUNK_SIZE)))
     \<longleftrightarrow> \<not> deflate_ok z (chunk B i)"
  by (simp add: perform_compression_def compress_worker_fields[OF assms] chunk_input
        chunk_avail_out Let_def deflate_ok_def)

lemma perform_compression_record:
  assumes "i * CHUNK_SIZE \<le> length B" "deflate_ok z (chunk B i)"
  shows "output_size (perform_compression z B (compress_worker (length B) (i * CHUNK_SIZE)))
           = length (chunk_record z (chunk B i))"
    and "take (length (chunk_record z (chunk B i)))
           (output (perform_compression z B (compress_worker (length B) (i * CHUNK_SIZE))))
           = chunk_record z (chunk B i)"
  using assms(2)
  by (simp_all add: perform_compression_def compress_worker_fields[OF assms(1)] chunk_input
        chunk_avail_out Let_def deflate_ok_def chunk_record_def deflated_def length_store_u32
        sizeof_uint32_def take_min_length)

subsection \<open>Offsets, failures and the written bytes\<close>

lemma set_offsets_Inr:
  "set_offsets cur ws = Inr offs \<Longrightarrow>
   length offs = length ws
   \<and> (\<forall>i<length ws. offs ! i = cur + sum_list (map output_size (take i ws))
         \<and> offs ! i \<le> UINT32_MAX)"
proof (induction ws arbitrary: cur offs)
  case Nil
  then show ?case by simp
next
  case (Cons w ws)
  from Cons.prems obtain os where os: "set_offsets (cur + output_size w) ws = Inr os"
    and offs: "offs = cur # os" and cur: "cur \<le> UINT32_MAX"
    by (auto split: if_splits sum.splits)
  from Cons.IH[OF os] have len: "length os = length ws"
    and nth: "\<And>i. i < length ws \<Longrightarrow>
        os ! i = cur + output_size w + sum_list (map output_size (take i ws))
        \<and> os ! i \<le> UINT32_MAX"
    by auto
  show ?case
  proof (intro conjI allI impI)
    show "length offs = length (w # ws)" using len offs by simp
  next
    fix i assume "i < length (w # ws)"
    then show "offs ! i = cur + sum_list (map output_size (take i (w # ws)))"
      using nth[of "i - 1"] offs by (cases i) auto
  next
    fix i assume "i < length (w # ws)"
    then show "offs ! i \<le> UINT32_MAX"
      using nth[of "i - 1"] offs cur by (cases i) auto
  qed
qed

lemma set_offsets_cases:
  "(\<exists>offs. set_offsets cur ws = Inr offs) \<or> (\<exists>v. set_offsets cur ws = Inl (SizeExceeded v))"
proof (induction ws arbitrary: cur)
  case Nil
  then show ?case by simp
next
  case (Cons w ws)
  from Cons.IH[of "cur + output_size w"] show ?case by auto
qed

lemma set_offsets_overflow:
  assumes "i < length ws" "UINT32_MAX < cur + sum_list (map output_size (take i ws))"
  shows "\<exists>v. set_offsets cur ws = Inl (SizeExceeded v)"
proof -
  have "set_offsets cur ws \<noteq> Inr offs" for offs
  proof
    assume "set_offsets cur ws = Inr offs"
    from set_offsets_Inr[OF this] assms(1)
    have "cur + sum_list (map output_size (take i ws)) \<le> UINT32_MAX" by metis
    with assms(2) show False by simp
  qed
  with set_offsets_cases[of cur ws] show ?thesis by auto
qed

lemma set_offsets_ok:
  assumes "\<forall>i<length ws. cur + sum_list (map output_size (take i ws)) \<le> UINT32_MAX"
  shows "set_offsets cur ws
    = Inr (map (\<lambda>i. cur + sum_list (map output_size (take i ws))) [0..<length ws])"
proof -
  have "set_offsets cur ws \<noteq> Inl (SizeExceeded v)" for v
    using assms
  proof (induction ws arbitrary: cur)
    case Nil
    then show ?case by simp
  next
    case (Cons w ws)
    have c0: "cur \<le> UINT32_MAX" using Cons.prems by fastforce
    have "\<forall>i<length ws. cur + output_size w + sum_list (map output_size (take i ws)) \<le> UINT32_MAX"
    proof (intro allI impI)
      fix i assume "i < length ws"
      then have "Suc i < length (w # ws)" by simp
      with Cons.prems have "cur + sum_list (map output_size (take (Suc i) (w # ws))) \<le> UINT32_MAX"
        by blast
      then show "cur + output_size w + sum_list (map output_size (take i ws)) \<le> UINT32_MAX"
        by (simp add: add.assoc)
    qed
    from Cons.IH[OF this] c0 show ?case by (auto split: sum.splits)
  qed
  with set_offsets_cases[of cur ws] obtain offs where offs: "set_offsets cur ws = Inr offs"
    by auto
  from set_offsets_Inr[OF offs] have "offs = map (\<lambda>i. cur + sum_list (map output_size (take i ws))) [0..<length ws]"
    by (intro nth_equalityI) auto
  with offs show ?thesis by simp
qed

lemma write_workers_ok:
  "\<forall>w\<in>set ws. output_size w \<noteq> 0 \<Longrightarrow>
   write_workers ws = Inr (concat (map (\<lambda>w. take (output_size w) (output w)) ws))"
  by (induction ws) simp_all

lemma write_workers_zero:
  "\<exists>w\<in>set ws. output_size w = 0 \<Longrightarrow> write_workers ws = Inl WriteFailed"
proof (induction ws)
  case Nil
  then show ?case by simp
next
  case (Cons a ws)
  show ?case
  proof (cases "output_size a = 0")
    case True
    then show ?thesis by simp
  next
    case False
    with Cons.prems have "\<exists>w\<in>set ws. output_size w = 0" by auto
    from Cons.IH[OF this] False show ?thesis by simp
  qed
qed

lemma failed_blocks_map:
  "failed_blocks (map f xs) = filter (\<lambda>i. failure (f (xs ! i))) [0..<length xs]"
  by (auto simp: failed_blocks_def intro: filter_cong)

lemma failed_blocks_upt:
  "failed_blocks (map f [0..<n]) = filter (\<lambda>i. failure (f i)) [0..<n]"
  by (auto simp: failed_blocks_map intro: filter_cong)

lemma failed_blocks_set: "set (failed_blocks ws) = {i. i < length ws \<and> failure (ws ! i)}"
  by (auto simp: failed_blocks_def)

subsection \<open>compress_file, case by case\<close>

lemma take_chunk_records:
  "i \<le> bc \<Longrightarrow> take i (chunk_records z B bc) = chunk_records z B i"
  by (simp add: chunk_records_def take_map)

lemma length_chunk_record_pos: "0 < length (chunk_record z inp)"
  by (simp add: chunk_record_def length_store_u32)

text \<open>The workers after the jobs, when the plan is valid.\<close>

lemma compress_jobs:
  assumes plan: "length B mod CHUNK_SIZE = 0 \<or> sizeof_uint32 \<le> length B mod CHUNK_SIZE"
    and ws: "ws = map (\<lambda>i. perform_compression z B (compress_worker (length B) (i * CHUNK_SIZE)))
                    [0..<chunk_count (length B)]"
  shows "failed_blocks ws = filter (\<lambda>i. \<not> deflate_ok z (chunk B i)) [0..<chunk_count (length B)]"
    and "\<forall>i<chunk_count (length B). deflate_ok z (chunk B i) \<Longrightarrow>
         map output_size ws = map length (chunk_records z B (chunk_count (length B)))"
    and "\<forall>i<chunk_count (length B). deflate_ok z (chunk B i) \<Longrightarrow>
         map (\<lambda>w. take (output_size w) (output w)) ws = chunk_records z B (chunk_count (length B))"
proof -
  have le: "i * CHUNK_SIZE \<le> length B" if "i < chunk_count (length B)" for i
    using chunk_count_offset_ok[OF plan that] by simp
  show "failed_blocks ws = filter (\<lambda>i. \<not> deflate_ok z (chunk B i)) [0..<chunk_count (length B)]"
    unfolding ws failed_blocks_upt
    by (rule filter_cong) (simp_all add: perform_compression_failure le)
  assume ok: "\<forall>i<chunk_count (length B). deflate_ok z (chunk B i)"
  show "map output_size ws = map length (chunk_records z B (chunk_count (length B)))"
    unfolding ws chunk_records_def
    by (simp add: perform_compression_record(1) le ok)
  show "map (\<lambda>w. take (output_size w) (output w)) ws = chunk_records z B (chunk_count (length B))"
    unfolding ws chunk_records_def
    by (simp add: perform_compression_record le ok)
qed

lemma compress_file_planned:
  assumes plan: "length B mod CHUNK_SIZE = 0 \<or> sizeof_uint32 \<le> length B mod CHUNK_SIZE"
    and bc: "chunk_count (length B) \<le> MAX_BLOCKS"
    and ws: "ws = map (\<lambda>i. perform_compression z B (compress_worker (length B) (i * CHUNK_SIZE)))
                    [0..<chunk_count (length B)]"
  shows "compress_file z B =
     (if failed_blocks ws \<noteq> [] then Inl (BlocksFailed (failed_blocks ws))
      else (case set_offsets sizeof_CompressedMapHeader ws of
              Inl e \<Rightarrow> Inl e
            | Inr offs \<Rightarrow> write_file ws (header_bytes (chunk_count (length B)) offs)))"
proof -
  have "compress_workers (length B) [0..<chunk_count (length B)]
      = Inr (map (\<lambda>i. compress_worker (length B) (i * CHUNK_SIZE)) [0..<chunk_count (length B)])"
    using plan by (rule compress_workers_plan)
  then show ?thesis
    using bc unfolding compress_file_unfold ws
    by (simp add: Let_def comp_def)
qed

lemma compress_file_blocks_failed:
  assumes "length B mod CHUNK_SIZE = 0 \<or> sizeof_uint32 \<le> length B mod CHUNK_SIZE"
    and "chunk_count (length B) \<le> MAX_BLOCKS"
    and "\<exists>i<chunk_count (length B). \<not> deflate_ok z (chunk B i)"
  shows "compress_file z B
     = Inl (BlocksFailed (filter (\<lambda>i. \<not> deflate_ok z (chunk B i)) [0..<chunk_count (length B)]))"
proof -
  define ws where "ws = map (\<lambda>i. perform_compression z B (compress_worker (length B) (i * CHUNK_SIZE)))
                    [0..<chunk_count (length B)]"
  have "filter (\<lambda>i. \<not> deflate_ok z (chunk B i)) [0..<chunk_count (length B)] \<noteq> []"
    using assms(3) by (auto simp: filter_empty_conv)
  then show ?thesis
    using compress_file_planned[OF assms(1,2) ws_def] compress_jobs(1)[OF assms(1) ws_def]
    by simp
qed

lemma sum_list_record_sizes:
  assumes "map output_size ws = map length (chunk_records z B bc)" "i \<le> bc"
  shows "sizeof_CompressedMapHeader + sum_list (map output_size (take i ws)) = record_offset z B i"
proof -
  have "map output_size (take i ws) = take i (map output_size ws)"
    by (simp add: take_map)
  also have "\<dots> = take i (map length (chunk_records z B bc))"
    by (simp only: assms(1))
  also have "\<dots> = map length (take i (chunk_records z B bc))"
    by (simp add: take_map)
  also have "\<dots> = map length (chunk_records z B i)"
    by (simp only: take_chunk_records[OF assms(2)])
  finally show ?thesis by (simp add: record_offset_def)
qed

lemma compress_file_size_exceeded:
  assumes "length B mod CHUNK_SIZE = 0 \<or> sizeof_uint32 \<le> length B mod CHUNK_SIZE"
    and "chunk_count (length B) \<le> MAX_BLOCKS"
    and ok: "\<forall>i<chunk_count (length B). deflate_ok z (chunk B i)"
    and ex: "\<exists>i<chunk_count (length B). UINT32_MAX < record_offset z B i"
  shows "\<exists>v. compress_file z B = Inl (SizeExceeded v)"
proof -
  define ws where "ws = map (\<lambda>i. perform_compression z B (compress_worker (length B) (i * CHUNK_SIZE)))
                    [0..<chunk_count (length B)]"
  have nofail: "failed_blocks ws = []"
    using compress_jobs(1)[OF assms(1) ws_def] ok by (simp add: filter_empty_conv)
  have sizes: "map output_size ws = map length (chunk_records z B (chunk_count (length B)))"
    using compress_jobs(2)[OF assms(1) ws_def ok] .
  from ex obtain i where i: "i < chunk_count (length B)" "UINT32_MAX < record_offset z B i"
    by blast
  have len: "length ws = chunk_count (length B)" by (simp add: ws_def)
  have "UINT32_MAX < sizeof_CompressedMapHeader + sum_list (map output_size (take i ws))"
    using sum_list_record_sizes[OF sizes, of i] i by simp
  from set_offsets_overflow[OF _ this] i(1) len
  obtain v where "set_offsets sizeof_CompressedMapHeader ws = Inl (SizeExceeded v)" by auto
  then show ?thesis
    using compress_file_planned[OF assms(1,2) ws_def] nofail by simp
qed

lemma compress_file_success:
  assumes "length B mod CHUNK_SIZE = 0 \<or> sizeof_uint32 \<le> length B mod CHUNK_SIZE"
    and "chunk_count (length B) \<le> MAX_BLOCKS"
    and ok: "\<forall>i<chunk_count (length B). deflate_ok z (chunk B i)"
    and fits: "\<forall>i<chunk_count (length B). record_offset z B i \<le> UINT32_MAX"
  shows "compress_file z B
     = Inr (header_bytes (chunk_count (length B))
              (map (record_offset z B) [0..<chunk_count (length B)])
            @ concat (chunk_records z B (chunk_count (length B))))"
proof -
  define ws where "ws = map (\<lambda>i. perform_compression z B (compress_worker (length B) (i * CHUNK_SIZE)))
                    [0..<chunk_count (length B)]"
  have nofail: "failed_blocks ws = []"
    using compress_jobs(1)[OF assms(1) ws_def] ok by (simp add: filter_empty_conv)
  have sizes: "map output_size ws = map length (chunk_records z B (chunk_count (length B)))"
    using compress_jobs(2)[OF assms(1) ws_def ok] .
  have recs: "map (\<lambda>w. take (output_size w) (output w)) ws
      = chunk_records z B (chunk_count (length B))"
    using compress_jobs(3)[OF assms(1) ws_def ok] .
  have len: "length ws = chunk_count (length B)" by (simp add: ws_def)
  have off: "sizeof_CompressedMapHeader + sum_list (map output_size (take i ws)) = record_offset z B i"
    if "i < chunk_count (length B)" for i
    using sum_list_record_sizes[OF sizes, of i] that by simp
  have "set_offsets sizeof_CompressedMapHeader ws
     = Inr (map (\<lambda>i. sizeof_CompressedMapHeader + sum_list (map output_size (take i ws)))
             [0..<length ws])"
    by (rule set_offsets_ok) (simp add: len off fits)
  also have "map (\<lambda>i. sizeof_CompressedMapHeader + sum_list (map output_size (take i ws)))
             [0..<length ws] = map (record_offset z B) [0..<chunk_count (length B)]"
    unfolding len by (rule map_cong) (simp_all add: off)
  finally have so: "set_offsets sizeof_CompressedMapHeader ws
     = Inr (map (record_offset z B) [0..<chunk_count (length B)])" .
  have nz: "\<forall>w\<in>set ws. output_size w \<noteq> 0"
  proof
    fix w assume "w \<in> set ws"
    then have "output_size w \<in> set (map output_size ws)" by simp
    then have "output_size w \<in> set (map length (chunk_records z B (chunk_count (length B))))"
      by (simp only: sizes)
    then show "output_size w \<noteq> 0"
      using length_chunk_record_pos[of z] by (auto simp: chunk_records_def)
  qed
  have "write_workers ws = Inr (concat (chunk_records z B (chunk_count (length B))))"
    using write_workers_ok[OF nz] recs by simp
  then show ?thesis
    using compress_file_planned[OF assms(1,2) ws_def] nofail so
    by (simp add: write_file_def)
qed

lemma compress_file_Inr_D:
  assumes "compress_file z B = Inr c"
  shows "chunk_count (length B) \<le> MAX_BLOCKS"
    and "length B mod CHUNK_SIZE = 0 \<or> sizeof_uint32 \<le> length B mod CHUNK_SIZE"
    and "\<forall>i<chunk_count (length B). deflate_ok z (chunk B i)"
    and "\<forall>i<chunk_count (length B). record_offset z B i \<le> UINT32_MAX"
    and "c = header_bytes (chunk_count (length B))
              (map (record_offset z B) [0..<chunk_count (length B)])
            @ concat (chunk_records z B (chunk_count (length B)))"
proof -
  show bc: "chunk_count (length B) \<le> MAX_BLOCKS"
    using compress_file_too_many[of B z] assms by (cases "MAX_BLOCKS < chunk_count (length B)") auto
  show plan: "length B mod CHUNK_SIZE = 0 \<or> sizeof_uint32 \<le> length B mod CHUNK_SIZE"
  proof (rule ccontr)
    assume "\<not> ?thesis"
    then have t: "0 < length B mod CHUNK_SIZE" "length B mod CHUNK_SIZE < sizeof_uint32"
      by auto
    with bc have "length B div CHUNK_SIZE < MAX_BLOCKS" by (simp add: chunk_count_def)
    from compress_file_short_tail[OF t this, of z] assms show False by simp
  qed
  show ok: "\<forall>i<chunk_count (length B). deflate_ok z (chunk B i)"
    using compress_file_blocks_failed[OF plan bc, of z] assms by auto
  show fits: "\<forall>i<chunk_count (length B). record_offset z B i \<le> UINT32_MAX"
    using compress_file_size_exceeded[OF plan bc ok] assms by (auto simp: not_le[symmetric])
  show "c = header_bytes (chunk_count (length B))
              (map (record_offset z B) [0..<chunk_count (length B)])
            @ concat (chunk_records z B (chunk_count (length B)))"
    using compress_file_success[OF plan bc ok fits] assms by simp
qed

lemma chunk_count_ceiling: "chunk_count n = nat \<lceil>real n / 131072\<rceil>"
proof -
  define q where "q = n div 131072"
  define r where "r = n mod 131072"
  have n: "n = q * 131072 + r" and r: "r < 131072" by (simp_all add: q_def r_def)
  have x: "real n / 131072 = real q + real r / 131072" by (simp add: n)
  show ?thesis
  proof (cases "r = 0")
    case True
    then have "\<lceil>real n / 131072\<rceil> = int q" by (simp add: x)
    then show ?thesis using True by (simp add: chunk_count_def CHUNK_SIZE_def q_def r_def)
  next
    case False
    have "\<lceil>real n / 131072\<rceil> = int q + 1"
    proof (rule ceiling_unique)
      show "of_int (int q + 1) - 1 < real n / 131072" using False by (simp add: x)
      show "real n / 131072 \<le> of_int (int q + 1)" using r by (simp add: x)
    qed
    then show ?thesis using False by (simp add: chunk_count_def CHUNK_SIZE_def q_def r_def)
  qed
qed

lemma compress_file_block_count_field:
  assumes "compress_file z B = Inr c"
  shows "block_count c = chunk_count (length B)"
proof -
  have "chunk_count (length B) < 2 ^ 32"
    using compress_file_Inr_D(1)[OF assms] by (simp add: MAX_BLOCKS_def)
  then show ?thesis
    by (simp add: compress_file_Inr_D(5)[OF assms] block_count_header_bytes)
qed

text \<open>
  C2 (as amended): whenever \<open>compress_file\<close> succeeds on an input of \<open>N\<close> bytes,
  the \<open>block_count\<close> of the header it writes is \<open>ceil(N / 131072)\<close>. The empty
  input is not treated as one empty chunk: its block count is \<open>ceil(0 / 131072) = 0\<close>.
\<close>

theorem compress_file_block_count:
  "compress_file z B = Inr c \<Longrightarrow> block_count c = nat \<lceil>real (length B) / 131072\<rceil>"
  using compress_file_block_count_field[of z B c] chunk_count_ceiling[of "length B"] by simp

text \<open>The container of the empty file: a header with no block.\<close>

lemma compress_file_empty: "compress_file z [] = Inr (header_bytes 0 [])"
  by (simp add: compress_file_def read_file_def perform_job_def failed_blocks_def write_file_def)

theorem compress_file_block_count_counterexample:
  "compress_file zlib_stored [] = Inr (header_bytes 0 [])
   \<and> block_count (header_bytes 0 []) = 0"
  using block_count_header_bytes[of 0 "[]" "[]"] by (simp add: compress_file_empty)

text \<open>
  C4: an input whose size modulo 131072 is 1, 2 or 3 and whose chunk plan is
  otherwise valid (at most 65535 chunks, the last one included) makes
  \<open>compress_file\<close> end with the invalid offset diagnostic of its last chunk,
  whatever the codec and the number of threads (no job has run), and nothing is
  written.
\<close>

theorem compress_file_short_tail_rejected:
  "length B mod 131072 \<in> {1, 2, 3} \<Longrightarrow> length B div 131072 < 65535 \<Longrightarrow>
   compress_file z B
     = Inl (InvalidOffset (length B div 131072) (length B div 131072 * 131072))"
proof -
  assume t: "length B mod 131072 \<in> {1, 2, 3}" and n: "length B div 131072 < 65535"
  from t have t1: "0 < length B mod CHUNK_SIZE" and t2: "length B mod CHUNK_SIZE < sizeof_uint32"
    by (auto simp: CHUNK_SIZE_def sizeof_uint32_def)
  show ?thesis
    using compress_file_short_tail[OF t1 t2, of z] n
    by (simp add: CHUNK_SIZE_def MAX_BLOCKS_def)
qed

theorem compress_file_short_tail_rejected_witness:
  "compress_file zlib_stored [65] = Inl (InvalidOffset 0 0)"
  using compress_file_short_tail_rejected[of "[65]" zlib_stored] by simp

subsection \<open>The stored-block instance\<close>

declare stored_blocks.simps [simp del] inflate_blocks.simps [simp del]

lemma u16_digits:
  fixes n :: nat
  assumes "n < 65536"
  shows "n mod 256 + 256 * (n div 256 mod 256) = n"
proof -
  have "n div 256 < 256" using assms by (simp add: less_mult_imp_div_less)
  then have "n div 256 mod 256 = n div 256" by simp
  then show ?thesis by simp
qed

lemma load_store_u16:
  "n \<le> 65535 \<Longrightarrow> store_u16 n = [l0, l1] \<Longrightarrow> unat l0 + 256 * unat l1 = n"
  using u16_digits[of n] by (auto simp: store_u16_def unat_byte_of_nat)

lemma length_store_u16: "length (store_u16 n) = 2"
  by (simp add: store_u16_def)

lemma store_u16_Cons: "store_u16 n = [of_nat (n mod 65536), of_nat (n mod 65536 div 256)]"
  by (simp add: store_u16_def)

lemma adler32_lt: "adler32 bs < 2 ^ 32"
proof -
  have "fst (fold (\<lambda>x (a, b). ((a + unat x) mod 65521, (b + (a + unat x) mod 65521) mod 65521))
             bs (a0, b0)) < 65521
      \<and> snd (fold (\<lambda>x (a, b). ((a + unat x) mod 65521, (b + (a + unat x) mod 65521) mod 65521))
             bs (a0, b0)) < 65521"
    if "a0 < 65521" "b0 < 65521" for a0 b0 :: nat
    using that by (induction bs arbitrary: a0 b0) simp_all
  from this[of 1 0] show ?thesis
    by (auto simp: adler32_def split: prod.splits)
qed

lemma length_store_be32: "length (store_be32 n) = 4"
  by (simp add: store_be32_def length_store_u32)

lemma load_be32_store_be32: "load_be32 (store_be32 n @ rest) = n mod 2 ^ 32"
  using load_u32_store_u32[of n "[]"]
  by (simp add: load_be32_def store_be32_def length_store_u32)

lemma load_be32_adler32: "load_be32 (store_be32 (adler32 bs) @ rest) = adler32 bs"
  using adler32_lt[of bs] by (simp add: load_be32_store_be32)

lemma length_stored_blocks:
  "length (stored_blocks bs) = length bs + 5 * ((length bs - 1) div 65535 + 1)"
proof (induction bs rule: stored_blocks.induct)
  case (1 bs)
  show ?case
  proof (cases "length bs \<le> 65535")
    case True
    then have "(length bs - 1) div 65535 = 0" by simp
    then show ?thesis
      using True by (subst stored_blocks.simps) (simp add: length_store_u16)
  next
    case False
    then have "(length bs - 1) div 65535 = Suc ((length bs - 65535 - 1) div 65535)"
      using div_add_self2[of 65535 "length bs - 65535 - 1"] by simp
    then show ?thesis
      using False 1
      by (subst stored_blocks.simps) (simp add: length_store_u16)
  qed
qed

lemma u16_value:
  "n \<le> 65535 \<Longrightarrow>
   unat (of_nat (n mod 65536) :: byte) + 256 * unat (of_nat (n mod 65536 div 256) :: byte) = n"
  using u16_digits[of "n"] by (simp add: unat_byte_of_nat)

lemma inflate_blocks_block_raw:
  assumes "unat h div 2 mod 4 = 0" "unat l0 + 256 * unat l1 = length data"
    "unat n0 + 256 * unat n1 = 65535 - length data" "length data \<le> 65535"
    "length out + length data \<le> cap"
  shows "inflate_blocks (h # l0 # l1 # n0 # n1 # data @ tl0) cap out =
     (if unat h mod 2 = 1
      then (if length tl0 < 4 then (Z_BUF_ERROR, out @ data)
            else if load_be32 tl0 \<noteq> adler32 (out @ data) then (Z_DATA_ERROR, out @ data)
            else (Z_STREAM_END, out @ data))
      else inflate_blocks tl0 cap (out @ data))"
proof -
  have c: "\<not> cap - length out < length data" using assms(5) by simp
  show ?thesis
    apply (subst inflate_blocks.simps)
    apply (simp only: list.case assms(1,2,3) Let_def)
    apply (simp add: assms(4) c)
    done
qed

lemma inflate_blocks_stored_block:
  assumes "n \<le> 65535" "length data = n" "length out + n \<le> cap" "unat h div 2 mod 4 = 0"
  shows "inflate_blocks (h # store_u16 n @ store_u16 (65535 - n) @ data @ tl0) cap out =
     (if unat h mod 2 = 1
      then (if length tl0 < 4 then (Z_BUF_ERROR, out @ data)
            else if load_be32 tl0 \<noteq> adler32 (out @ data) then (Z_DATA_ERROR, out @ data)
            else (Z_STREAM_END, out @ data))
      else inflate_blocks tl0 cap (out @ data))"
proof -
  have v: "unat (of_nat (n mod 65536) :: byte) + 256 * unat (of_nat (n mod 65536 div 256) :: byte)
      = length data"
    using assms(1,2) u16_value by simp
  have w: "unat (of_nat ((65535 - n) mod 65536) :: byte)
      + 256 * unat (of_nat ((65535 - n) mod 65536 div 256) :: byte) = 65535 - length data"
    using u16_value[of "65535 - n"] assms(2) by simp
  have "inflate_blocks (h # of_nat (n mod 65536) # of_nat (n mod 65536 div 256)
          # of_nat ((65535 - n) mod 65536) # of_nat ((65535 - n) mod 65536 div 256)
          # data @ tl0) cap out =
     (if unat h mod 2 = 1
      then (if length tl0 < 4 then (Z_BUF_ERROR, out @ data)
            else if load_be32 tl0 \<noteq> adler32 (out @ data) then (Z_DATA_ERROR, out @ data)
            else (Z_STREAM_END, out @ data))
      else inflate_blocks tl0 cap (out @ data))"
    using assms by (intro inflate_blocks_block_raw v w) simp_all
  then show ?thesis by (simp add: store_u16_Cons)
qed

lemma inflate_blocks_stored:
  "length out + length bs \<le> cap \<Longrightarrow>
   inflate_blocks (stored_blocks bs @ store_be32 (adler32 (out @ bs)) @ rest) cap out
     = (Z_STREAM_END, out @ bs)"
proof (induction bs arbitrary: out rule: stored_blocks.induct)
  case (1 bs)
  show ?case
  proof (cases "length bs \<le> 65535")
    case True
    have "inflate_blocks
        (1 # store_u16 (length bs) @ store_u16 (65535 - length bs) @ bs
           @ (store_be32 (adler32 (out @ bs)) @ rest)) cap out
      = (Z_STREAM_END, out @ bs)"
      using True "1.prems"
      by (subst inflate_blocks_stored_block)
         (simp_all add: length_store_be32 load_be32_adler32)
    then show ?thesis
      using True by (subst stored_blocks.simps) simp
  next
    case False
    have ih: "inflate_blocks
        (stored_blocks (drop 65535 bs)
           @ store_be32 (adler32 ((out @ take 65535 bs) @ drop 65535 bs)) @ rest)
        cap (out @ take 65535 bs)
      = (Z_STREAM_END, (out @ take 65535 bs) @ drop 65535 bs)"
      using False "1.prems" by (intro "1.IH") simp_all
    have "inflate_blocks
        (0 # store_u16 65535 @ store_u16 (65535 - 65535) @ take 65535 bs
           @ (stored_blocks (drop 65535 bs) @ store_be32 (adler32 (out @ bs)) @ rest)) cap out
      = inflate_blocks (stored_blocks (drop 65535 bs) @ store_be32 (adler32 (out @ bs)) @ rest)
          cap (out @ take 65535 bs)"
      using False "1.prems"
      by (subst inflate_blocks_stored_block) simp_all
    also have "\<dots> = (Z_STREAM_END, out @ bs)"
      using ih by simp
    finally show ?thesis
      using False by (subst stored_blocks.simps) simp
  qed
qed

text \<open>The zlib stream of the instance for an input.\<close>

lemma deflate_stored_fits:
  "length inp + 5 * ((length inp - 1) div 65535 + 1) + 6 \<le> avail_out \<Longrightarrow>
   deflate_stored inp avail_out
     = (Z_STREAM_END, [0x78, 0x01] @ stored_blocks inp @ store_be32 (adler32 inp))"
  by (simp add: deflate_stored_def Let_def length_stored_blocks length_store_be32)

lemma deflate_stored_small:
  "length inp + 5 * ((length inp - 1) div 65535 + 1) + 6 > avail_out \<Longrightarrow>
   fst (deflate_stored inp avail_out) = Z_OK"
  by (simp add: deflate_stored_def Let_def length_stored_blocks length_store_be32)

lemma inflate_stored_stream:
  assumes "length inp + 5 * ((length inp - 1) div 65535 + 1) + 6 \<le> avail_in"
    "length inp \<le> avail_out"
  shows "inflate_stored avail_in
           (([0x78, 0x01] @ stored_blocks inp @ store_be32 (adler32 inp)) @ rest) avail_out
         = (Z_STREAM_END, inp)"
proof -
  define body where "body = stored_blocks inp @ store_be32 (adler32 inp)"
  define k where "k = avail_in - 2"
  have k: "avail_in = Suc (Suc k)" using assms(1) by (simp add: k_def)
  have len: "length body \<le> k"
    using assms(1) by (simp add: k_def body_def length_stored_blocks length_store_be32)
  have t: "take avail_in (([0x78, 0x01] @ body) @ rest)
      = 0x78 # 0x01 # (body @ take (k - length body) rest)"
    using len by (simp add: k)
  have b: "inflate_blocks (body @ take (k - length body) rest) avail_out [] = (Z_STREAM_END, inp)"
    using inflate_blocks_stored[of "[]" inp avail_out "take (k - length body) rest"] assms(2)
    by (simp add: body_def)
  have "inflate_stored avail_in (([0x78, 0x01] @ body) @ rest) avail_out = (Z_STREAM_END, inp)"
    unfolding inflate_stored_def t by (simp add: b)
  then show ?thesis by (simp add: body_def)
qed

lemma deflate_ok_stored:
  "deflate_ok zlib_stored inp \<longleftrightarrow>
     length inp + 5 * ((length inp - 1) div 65535 + 1) + 6 \<le> 2 * length inp"
  using deflate_stored_fits[of inp "2 * length inp"] deflate_stored_small[of "2 * length inp" inp]
  by (cases "length inp + 5 * ((length inp - 1) div 65535 + 1) + 6 \<le> 2 * length inp")
     (simp_all add: deflate_ok_def zlib_stored_def)

lemma deflated_stored:
  assumes "deflate_ok zlib_stored inp"
  shows "deflated zlib_stored inp = [0x78, 0x01] @ stored_blocks inp @ store_be32 (adler32 inp)"
proof -
  have fits: "length inp + 5 * ((length inp - 1) div 65535 + 1) + 6 \<le> 2 * length inp"
    using assms by (simp only: deflate_ok_stored)
  have "deflate_stored inp (2 * length inp)
      = (Z_STREAM_END, [0x78, 0x01] @ stored_blocks inp @ store_be32 (adler32 inp))"
    using fits by (rule deflate_stored_fits)
  moreover have "length ([0x78, 0x01] @ stored_blocks inp @ store_be32 (adler32 inp))
      \<le> 2 * length inp"
    using fits by (simp add: length_stored_blocks length_store_be32)
  ultimately show ?thesis
    by (simp add: deflated_def zlib_stored_def)
qed

text \<open>A file of one chunk, sixteen bytes \<open>A\<close>, and its container.\<close>

lemma chunk_small: "length B \<le> CHUNK_SIZE \<Longrightarrow> chunk B 0 = B"
  by (simp add: chunk_def)

lemma compress_file_stored_16:
  "compress_file zlib_stored (replicate 16 65)
     = Inr (header_bytes 1 [262144] @ chunk_record zlib_stored (replicate 16 65))"
proof -
  have cc: "chunk_count 16 = 1"
    by (simp add: chunk_count_def CHUNK_SIZE_def)
  have ch: "chunk (replicate 16 (65 :: byte)) 0 = replicate 16 65"
    by (rule chunk_small) (simp add: CHUNK_SIZE_def)
  have ok: "deflate_ok zlib_stored (replicate 16 65)"
    by (simp add: deflate_ok_stored)
  have off: "record_offset zlib_stored (replicate 16 65) 0 = 262144"
    by (simp add: record_offset_def chunk_records_def sizeof_CompressedMapHeader_eq)
  show ?thesis
    using compress_file_success[of "replicate 16 65" zlib_stored]
    by (simp add: cc ch ok off chunk_records_def CHUNK_SIZE_def sizeof_uint32_def
          MAX_BLOCKS_def UINT32_MAX_def)
qed

theorem compress_file_block_count_witness:
  "compress_file zlib_stored (replicate 16 65)
     = Inr (header_bytes 1 [262144] @ chunk_record zlib_stored (replicate 16 65))
   \<and> block_count (header_bytes 1 [262144] @ chunk_record zlib_stored (replicate 16 65)) = 1"
  using compress_file_block_count[OF compress_file_stored_16] compress_file_stored_16
    chunk_count_ceiling[of 16]
  by (simp add: chunk_count_def CHUNK_SIZE_def)

subsection \<open>The layout of a container written by compress_file\<close>

lemma record_offset_0: "record_offset z B 0 = sizeof_CompressedMapHeader"
  by (simp add: record_offset_def chunk_records_def)

lemma record_offset_Suc:
  "record_offset z B (Suc i) = record_offset z B i + length (chunk_record z (chunk B i))"
  by (simp add: record_offset_def chunk_records_def)

lemma record_offset_mono: "i \<le> j \<Longrightarrow> record_offset z B i \<le> record_offset z B j"
  by (induction j) (auto simp: record_offset_Suc le_Suc_eq)

lemma length_chunk_records: "length (chunk_records z B bc) = bc"
  by (simp add: chunk_records_def)

lemma nth_chunk_records: "i < bc \<Longrightarrow> chunk_records z B bc ! i = chunk_record z (chunk B i)"
  by (simp add: chunk_records_def)

lemma length_concat_chunk_records:
  "length (concat (chunk_records z B i)) + sizeof_CompressedMapHeader = record_offset z B i"
  by (simp add: record_offset_def length_concat)

lemma container_drop_record:
  assumes "length hdr = sizeof_CompressedMapHeader" "i < bc"
  shows "drop (record_offset z B i) (hdr @ concat (chunk_records z B bc))
     = chunk_record z (chunk B i) @ concat (drop (Suc i) (chunk_records z B bc))"
proof -
  have split: "chunk_records z B bc
      = chunk_records z B i @ chunk_record z (chunk B i) # drop (Suc i) (chunk_records z B bc)"
    using assms(2) id_take_nth_drop[of i "chunk_records z B bc"]
    by (simp add: length_chunk_records nth_chunk_records take_chunk_records)
  have "record_offset z B i - sizeof_CompressedMapHeader = length (concat (chunk_records z B i))"
    using length_concat_chunk_records[of z B i] by linarith
  then have "drop (record_offset z B i) (hdr @ concat (chunk_records z B bc))
      = drop (length (concat (chunk_records z B i))) (concat (chunk_records z B bc))"
    using assms(1) length_concat_chunk_records[of z B i] by simp
  also have "\<dots> = drop (length (concat (chunk_records z B i)))
      (concat (chunk_records z B i)
         @ chunk_record z (chunk B i) @ concat (drop (Suc i) (chunk_records z B bc)))"
    by (subst split) simp
  also have "\<dots> = chunk_record z (chunk B i) @ concat (drop (Suc i) (chunk_records z B bc))"
    by simp
  finally show ?thesis .
qed

lemma compress_file_offsets_field:
  assumes "compress_file z B = Inr c" "i < chunk_count (length B)"
  shows "block_offsets c i = record_offset z B i"
proof -
  have "record_offset z B i < 2 ^ 32"
    using compress_file_Inr_D(4)[OF assms(1)] assms(2) by (auto simp: UINT32_MAX_def le_less_trans)
  then show ?thesis
    using assms(2)
    by (simp add: compress_file_Inr_D(5)[OF assms(1)] block_offsets_header_bytes)
qed

lemma compress_file_record_at:
  assumes "compress_file z B = Inr c" "i < chunk_count (length B)"
  shows "drop (record_offset z B i) c
     = chunk_record z (chunk B i)
         @ concat (drop (Suc i) (chunk_records z B (chunk_count (length B))))"
proof -
  have "length (header_bytes (chunk_count (length B))
          (map (record_offset z B) [0..<chunk_count (length B)])) = sizeof_CompressedMapHeader"
    using compress_file_Inr_D(1)[OF assms(1)] by (intro length_header_bytes) simp
  from container_drop_record[OF this assms(2)] show ?thesis
    by (simp add: compress_file_Inr_D(5)[OF assms(1)])
qed

text \<open>
  C8: in a container written by \<open>compress_file\<close>, the first offset is the size of
  the header, each next offset is the previous one plus the length of the record
  written for that block (the size prefix and the bytes deflate produced, not the
  capacity of the buffer), and each record lies at its offset; and when the
  plan is valid and every job succeeds, \<open>compress_file\<close> ends with the size
  diagnostic if the offset of some block exceeds \<open>UINT32_MAX\<close>.
\<close>

theorem compress_file_offsets:
  "(compress_file z B = Inr c \<longrightarrow>
      (0 < block_count c \<longrightarrow> block_offsets c 0 = sizeof_CompressedMapHeader)
      \<and> (\<forall>i. i + 1 < block_count c \<longrightarrow>
             block_offsets c (i + 1) = block_offsets c i + length (chunk_record z (chunk B i)))
      \<and> (\<forall>i<block_count c.
             take (length (chunk_record z (chunk B i))) (drop (block_offsets c i) c)
               = chunk_record z (chunk B i)))
   \<and> ((length B mod 131072 = 0 \<or> 4 \<le> length B mod 131072)
        \<and> chunk_count (length B) \<le> 65535
        \<and> (\<forall>i<chunk_count (length B). deflate_ok z (chunk B i))
        \<and> (\<exists>i<chunk_count (length B). 4294967295 < record_offset z B i) \<longrightarrow>
      (\<exists>v. compress_file z B = Inl (SizeExceeded v)))"
proof (intro conjI impI allI)
  assume c: "compress_file z B = Inr c"
  have bc: "block_count c = chunk_count (length B)"
    using c by (rule compress_file_block_count_field)
  show "block_offsets c 0 = sizeof_CompressedMapHeader" if "0 < block_count c"
    using that compress_file_offsets_field[OF c, of 0] by (simp add: bc record_offset_0)
  show "block_offsets c (i + 1) = block_offsets c i + length (chunk_record z (chunk B i))"
    if "i + 1 < block_count c" for i
    using that compress_file_offsets_field[OF c, of i] compress_file_offsets_field[OF c, of "Suc i"]
    by (simp add: bc record_offset_Suc)
  show "take (length (chunk_record z (chunk B i))) (drop (block_offsets c i) c)
      = chunk_record z (chunk B i)" if "i < block_count c" for i
    using that compress_file_offsets_field[OF c, of i] compress_file_record_at[OF c, of i]
    by (simp add: bc)
next
  assume a: "(length B mod 131072 = 0 \<or> 4 \<le> length B mod 131072)
        \<and> chunk_count (length B) \<le> 65535
        \<and> (\<forall>i<chunk_count (length B). deflate_ok z (chunk B i))
        \<and> (\<exists>i<chunk_count (length B). 4294967295 < record_offset z B i)"
  show "\<exists>v. compress_file z B = Inl (SizeExceeded v)"
    using a by (intro compress_file_size_exceeded)
      (simp_all add: CHUNK_SIZE_def sizeof_uint32_def MAX_BLOCKS_def UINT32_MAX_def)
qed

subsection \<open>Example files for the stored-block instance\<close>

lemma chunk_replicate:
  "chunk (replicate n x) i = replicate (min CHUNK_SIZE (n - i * CHUNK_SIZE)) x"
  by (simp add: chunk_def min.commute)

lemma length_chunk_record_stored:
  assumes "deflate_ok zlib_stored inp"
  shows "length (chunk_record zlib_stored inp)
     = length inp + 5 * ((length inp - 1) div 65535 + 1) + 10"
  by (simp add: chunk_record_def deflated_stored[OF assms] length_store_u32
        length_stored_blocks length_store_be32)

lemma record_offset_uniform:
  assumes "\<forall>j<i. chunk B j = ch"
  shows "record_offset z B i = sizeof_CompressedMapHeader + i * length (chunk_record z ch)"
proof -
  have "map (\<lambda>j. chunk_record z (chunk B j)) [0..<i] = map (\<lambda>j. chunk_record z ch) [0..<i]"
    using assms by (intro map_cong) simp_all
  then have "map length (chunk_records z B i) = map (\<lambda>j. length (chunk_record z ch)) [0..<i]"
    by (simp add: chunk_records_def comp_def)
  then show ?thesis
    by (simp add: record_offset_def sum_list_triv)
qed

text \<open>A file of two chunks: 131072 + 16 bytes \<open>A\<close>.\<close>

lemma deflate_ok_stored_full: "deflate_ok zlib_stored (replicate 131072 x)"
  by (simp add: deflate_ok_stored)

lemma deflate_ok_stored_16: "deflate_ok zlib_stored (replicate 16 x)"
  by (simp add: deflate_ok_stored)

lemma upt_2: "[0..<2] = [0, Suc 0]"
  by (simp add: upt_rec)

lemma compress_file_stored_two:
  "compress_file zlib_stored (replicate 131088 65)
     = Inr (header_bytes 2 [262144, 393241]
            @ chunk_record zlib_stored (replicate 131072 65)
            @ chunk_record zlib_stored (replicate 16 65))"
proof -
  have cc: "chunk_count 131088 = 2"
    by (simp add: chunk_count_def CHUNK_SIZE_def)
  have ch0: "chunk (replicate 131088 (65 :: byte)) 0 = replicate 131072 65"
    by (simp add: chunk_replicate CHUNK_SIZE_def)
  have ch1: "chunk (replicate 131088 (65 :: byte)) (Suc 0) = replicate 16 65"
    by (simp add: chunk_replicate CHUNK_SIZE_def)
  have lt2: "i < 2 \<longleftrightarrow> i = 0 \<or> i = Suc 0" for i :: nat by auto
  have off0: "record_offset zlib_stored (replicate 131088 65) 0 = 262144"
    by (simp add: record_offset_0 sizeof_CompressedMapHeader_eq)
  have off1: "record_offset zlib_stored (replicate 131088 65) (Suc 0) = 393241"
    by (simp add: record_offset_Suc off0 ch0 length_chunk_record_stored deflate_ok_stored_full)
  have "compress_file zlib_stored (replicate 131088 65)
     = Inr (header_bytes (chunk_count (length (replicate 131088 (65 :: byte))))
              (map (record_offset zlib_stored (replicate 131088 65))
                 [0..<chunk_count (length (replicate 131088 (65 :: byte)))])
            @ concat (chunk_records zlib_stored (replicate 131088 65)
                 (chunk_count (length (replicate 131088 (65 :: byte))))))"
    by (rule compress_file_success)
       (auto simp: cc lt2 ch0 ch1 off0 off1 deflate_ok_stored_full deflate_ok_stored_16
          CHUNK_SIZE_def sizeof_uint32_def MAX_BLOCKS_def UINT32_MAX_def)
  then show ?thesis
    by (simp add: cc upt_2 chunk_records_def ch0 ch1 off0 off1)
qed

text \<open>A file of 32768 full chunks, 4 GiB of zeros.\<close>

lemma chunk_zeros_4G:
  assumes "i < 32768"
  shows "chunk (replicate 4294967296 (0 :: byte)) i = replicate 131072 0"
proof -
  have "i * 131072 + 131072 \<le> 4294967296" using assms by simp
  then have "min 131072 (4294967296 - i * 131072) = (131072 :: nat)" by simp
  then show ?thesis by (simp add: chunk_replicate CHUNK_SIZE_def)
qed

lemma record_offset_zeros_4G:
  "i \<le> 32768 \<Longrightarrow>
   record_offset zlib_stored (replicate 4294967296 0) i = 262144 + i * 131097"
  using record_offset_uniform[of i "replicate 4294967296 0" "replicate 131072 0" zlib_stored]
  by (simp add: chunk_zeros_4G length_chunk_record_stored deflate_ok_stored_full
        sizeof_CompressedMapHeader_eq)

theorem compress_file_offsets_witness:
  "compress_file zlib_stored (replicate 131088 65)
     = Inr (header_bytes 2 [262144, 393241]
            @ chunk_record zlib_stored (replicate 131072 65)
            @ chunk_record zlib_stored (replicate 16 65))
   \<and> block_offsets (header_bytes 2 [262144, 393241]
            @ chunk_record zlib_stored (replicate 131072 65)
            @ chunk_record zlib_stored (replicate 16 65)) 0 = 262144
   \<and> block_offsets (header_bytes 2 [262144, 393241]
            @ chunk_record zlib_stored (replicate 131072 65)
            @ chunk_record zlib_stored (replicate 16 65)) 1 = 262144 + 131097
   \<and> (\<exists>v. compress_file zlib_stored (replicate 4294967296 0) = Inl (SizeExceeded v))"
proof -
  let ?c = "header_bytes 2 [262144, 393241]
            @ chunk_record zlib_stored (replicate 131072 65)
            @ chunk_record zlib_stored (replicate 16 65)"
  have bc: "block_count ?c = 2"
    using block_count_header_bytes[of 2 "[262144, 393241]"] by simp
  have ch0: "chunk (replicate 131088 (65 :: byte)) 0 = replicate 131072 65"
    by (simp add: chunk_replicate CHUNK_SIZE_def)
  have len0: "length (chunk_record zlib_stored (replicate 131072 65)) = 131097"
    by (simp add: length_chunk_record_stored deflate_ok_stored_full)
  note t = compress_file_offsets[of zlib_stored "replicate 131088 65" ?c]
  have a: "block_offsets ?c 0 = 262144"
    using t compress_file_stored_two by (simp add: bc sizeof_CompressedMapHeader_eq)
  from t compress_file_stored_two
  have "\<forall>i. i + 1 < block_count ?c \<longrightarrow>
     block_offsets ?c (i + 1) = block_offsets ?c i
       + length (chunk_record zlib_stored (chunk (replicate 131088 65) i))"
    by blast
  from this[rule_format, of 0] have b: "block_offsets ?c 1 = 262144 + 131097"
    by (simp add: bc a ch0 len0)
  have cc: "chunk_count 4294967296 = 32768"
    by (simp add: chunk_count_def CHUNK_SIZE_def)
  have "\<exists>i<32768. 4294967295 < record_offset zlib_stored (replicate 4294967296 0) i"
    by (rule exI[of _ 32767]) (simp add: record_offset_zeros_4G)
  then have c: "\<exists>v. compress_file zlib_stored (replicate 4294967296 0) = Inl (SizeExceeded v)"
    using compress_file_offsets[of zlib_stored "replicate 4294967296 0" "[]"]
    by (simp add: cc chunk_zeros_4G deflate_ok_stored_full)
  show ?thesis using compress_file_stored_two a b c by simp
qed

subsection \<open>Decompression jobs\<close>

lemma decompress_worker_fields:
  "input (decompress_worker file off) = off + 4"
  "input_size (decompress_worker file off) = length file - off + 4"
  "output_size (decompress_worker file off) = load_u32 file off"
  "output (decompress_worker file off) = replicate (load_u32 file off) 0"
  "failure (decompress_worker file off) = False"
  by (simp_all add: decompress_worker_def Worker0_def Let_def sizeof_uint32_def)

lemma load_u32_mod: "load_u32 m a mod 4294967296 = load_u32 m a"
  using load_u32_lt[of m a] by simp

lemma perform_decompression_failure:
  "failure (perform_decompression z file (decompress_worker file off)) \<longleftrightarrow> \<not> inflate_ok z file off"
  by (simp add: perform_decompression_def decompress_worker_fields Let_def inflate_ok_def
        load_u32_mod)

lemma perform_decompression_output:
  "inflateInit z = Z_OK \<Longrightarrow>
   output (perform_decompression z file (decompress_worker file off))
     = inflated z file off @ replicate (load_u32 file off - length (inflated z file off)) 0"
  by (simp add: perform_decompression_def decompress_worker_fields Let_def inflated_def
        load_u32_mod)

lemma perform_decompression_output_size:
  "output_size (perform_decompression z file (decompress_worker file off)) = load_u32 file off"
  by (simp add: perform_decompression_def decompress_worker_fields Let_def)

lemma decompress_file_planned:
  assumes "sizeof_CompressedMapHeader \<le> length file" "0 < block_count file"
    "block_count file \<le> MAX_BLOCKS"
    "\<forall>i<block_count file. block_offsets file i + sizeof_uint32 \<le> length file"
    and ws: "ws = map (\<lambda>i. perform_decompression z file
                       (decompress_worker file (block_offsets file i))) [0..<block_count file]"
  shows "decompress_file z file =
     (if failed_blocks ws \<noteq> [] then Inl (BlocksFailed (failed_blocks ws))
      else write_file ws [])"
proof -
  have "decompress_workers file [0..<block_count file]
     = Inr (map (\<lambda>i. decompress_worker file (block_offsets file i)) [0..<block_count file])"
    using assms(4) by (intro decompress_workers_ok) simp
  then show ?thesis
    unfolding decompress_file_header_ok[OF assms(1-3)] ws
    by (simp add: Let_def comp_def)
qed

lemma decompress_jobs_failed:
  assumes ws: "ws = map (\<lambda>i. perform_decompression z file
                       (decompress_worker file (block_offsets file i))) [0..<bc]"
  shows "failed_blocks ws = filter (\<lambda>i. \<not> inflate_ok z file (block_offsets file i)) [0..<bc]"
  unfolding ws failed_blocks_upt by (simp add: perform_decompression_failure)

lemma decompress_file_blocks_failed:
  assumes "sizeof_CompressedMapHeader \<le> length file" "0 < block_count file"
    "block_count file \<le> MAX_BLOCKS"
    "\<forall>i<block_count file. block_offsets file i + sizeof_uint32 \<le> length file"
    "\<exists>i<block_count file. \<not> inflate_ok z file (block_offsets file i)"
  shows "decompress_file z file
     = Inl (BlocksFailed (filter (\<lambda>i. \<not> inflate_ok z file (block_offsets file i))
                            [0..<block_count file]))"
proof -
  define ws where "ws = map (\<lambda>i. perform_decompression z file
                       (decompress_worker file (block_offsets file i))) [0..<block_count file]"
  have "filter (\<lambda>i. \<not> inflate_ok z file (block_offsets file i)) [0..<block_count file] \<noteq> []"
    using assms(5) by (auto simp: filter_empty_conv)
  then show ?thesis
    using decompress_file_planned[OF assms(1-4) ws_def] decompress_jobs_failed[OF ws_def]
    by simp
qed

lemma decompress_file_success:
  assumes "sizeof_CompressedMapHeader \<le> length file" "0 < block_count file"
    "block_count file \<le> MAX_BLOCKS"
    "\<forall>i<block_count file. block_offsets file i + sizeof_uint32 \<le> length file"
    "\<forall>i<block_count file. inflate_ok z file (block_offsets file i)"
    "\<forall>i<block_count file. load_u32 file (block_offsets file i) \<noteq> 0"
  shows "decompress_file z file
     = Inr (concat (map (\<lambda>i. inflated z file (block_offsets file i)
                 @ replicate (load_u32 file (block_offsets file i)
                                - length (inflated z file (block_offsets file i))) 0)
              [0..<block_count file]))"
proof -
  define ws where "ws = map (\<lambda>i. perform_decompression z file
                       (decompress_worker file (block_offsets file i))) [0..<block_count file]"
  have nofail: "failed_blocks ws = []"
    using decompress_jobs_failed[OF ws_def] assms(5) by (simp add: filter_empty_conv)
  have init: "inflateInit z = Z_OK"
    using assms(2,5) by (auto simp: inflate_ok_def)
  have nz: "\<forall>w\<in>set ws. output_size w \<noteq> 0"
    using assms(6) by (auto simp: ws_def perform_decompression_output_size)
  have len: "length (inflated z file off) \<le> load_u32 file off" for off
    by (simp add: inflated_def)
  have "map (\<lambda>w. take (output_size w) (output w)) ws
      = map (\<lambda>i. inflated z file (block_offsets file i)
                 @ replicate (load_u32 file (block_offsets file i)
                                - length (inflated z file (block_offsets file i))) 0)
              [0..<block_count file]"
    unfolding ws_def
    by (simp add: perform_decompression_output_size perform_decompression_output[OF init] len)
  then show ?thesis
    using decompress_file_planned[OF assms(1-4) ws_def] nofail write_workers_ok[OF nz]
    by (simp add: write_file_def)
qed

subsection \<open>Round trip\<close>

lemma concat_chunks_take:
  "concat (map (chunk B) [0..<k]) = take (k * CHUNK_SIZE) B"
proof (induction k)
  case 0
  then show ?case by simp
next
  case (Suc k)
  have "take (k * CHUNK_SIZE + CHUNK_SIZE) B
      = take (k * CHUNK_SIZE) B @ take CHUNK_SIZE (drop (k * CHUNK_SIZE) B)"
    by (rule take_add)
  then show ?case
    using Suc by (simp add: chunk_def add.commute)
qed

lemma chunk_count_covers: "n \<le> chunk_count n * CHUNK_SIZE"
proof (cases "n mod CHUNK_SIZE = 0")
  case True
  then have "n div CHUNK_SIZE * CHUNK_SIZE = n" by auto
  then show ?thesis using True by (simp add: chunk_count_def)
next
  case False
  have lt: "n mod CHUNK_SIZE < CHUNK_SIZE" by (simp add: CHUNK_SIZE_def)
  have "n = n div CHUNK_SIZE * CHUNK_SIZE + n mod CHUNK_SIZE" by simp
  with lt have "n \<le> n div CHUNK_SIZE * CHUNK_SIZE + CHUNK_SIZE" by linarith
  then show ?thesis using False by (simp add: chunk_count_def)
qed

lemma concat_chunks: "concat (map (chunk B) [0..<chunk_count (length B)]) = B"
  using chunk_count_covers[of "length B"] by (simp add: concat_chunks_take)

lemma chunk_count_pos: "0 < n \<Longrightarrow> 0 < chunk_count n"
proof -
  assume "0 < n"
  then have "0 < n div CHUNK_SIZE \<or> 0 < n mod CHUNK_SIZE"
    using last_chunk_offset[of n] by (cases "n div CHUNK_SIZE = 0") auto
  then show ?thesis by (auto simp: chunk_count_def)
qed

lemma chunk_length_ge4:
  assumes "length B mod CHUNK_SIZE = 0 \<or> sizeof_uint32 \<le> length B mod CHUNK_SIZE"
    "i < chunk_count (length B)"
  shows "4 \<le> length (chunk B i)"
  using chunk_count_offset_ok[OF assms]
  by (simp add: chunk_def CHUNK_SIZE_def sizeof_uint32_def)

text \<open>Block \<open>i\<close> of a container written by \<open>compress_file\<close>, as decompression sees it.\<close>

lemma roundtrip_block:
  assumes c: "compress_file z B = Inr c" and i: "i < chunk_count (length B)"
    and contract: "inflate_inverts_deflate z"
    and size: "length c + 4 - sizeof_CompressedMapHeader < 2 ^ 32"
  shows "block_offsets c i + sizeof_uint32 \<le> length c"
    and "load_u32 c (block_offsets c i) = length (chunk B i)"
    and "inflate_ok z c (block_offsets c i)"
    and "inflated z c (block_offsets c i) = chunk B i"
proof -
  define off where "off = record_offset z B i"
  define rest where "rest = concat (drop (Suc i) (chunk_records z B (chunk_count (length B))))"
  have bo: "block_offsets c i = off"
    unfolding off_def using c i by (rule compress_file_offsets_field)
  have at: "drop off c = (store_u32 (length (chunk B i)) @ deflated z (chunk B i)) @ rest"
    using compress_file_record_at[OF c i] by (simp add: off_def rest_def chunk_record_def)
  have lenc: "length c = off + (4 + length (deflated z (chunk B i)) + length rest)"
  proof -
    have "length (drop off c) = 4 + length (deflated z (chunk B i)) + length rest"
      by (simp add: at length_store_u32)
    moreover have "off \<le> length c"
    proof (rule ccontr)
      assume "\<not> off \<le> length c"
      then have "drop off c = []" by simp
      with at show False by (simp add: store_u32_def)
    qed
    ultimately show ?thesis by simp
  qed
  show valid: "block_offsets c i + sizeof_uint32 \<le> length c"
    using lenc by (simp add: bo sizeof_uint32_def)
  have lt: "length (chunk B i) < 2 ^ 32"
    using length_chunk_le[of B i] by (simp add: CHUNK_SIZE_def)
  have "load_u32 c off = load_u32 (drop off c) 0"
    using lenc by (simp add: load_u32_drop)
  also have "\<dots> = length (chunk B i)"
    using lt by (simp add: at load_u32_store_u32)
  finally have size_prefix: "load_u32 c off = length (chunk B i)" .
  then show "load_u32 c (block_offsets c i) = length (chunk B i)"
    by (simp add: bo)
  have input: "drop (off + 4) c = deflated z (chunk B i) @ rest"
  proof -
    have "drop (off + 4) c = drop 4 (drop off c)" by (simp add: add.commute)
    also have "\<dots> = deflated z (chunk B i) @ rest"
      by (simp add: at length_store_u32)
    finally show ?thesis .
  qed
  have off_ge: "sizeof_CompressedMapHeader \<le> off"
    using record_offset_mono[of 0 i z B] by (simp add: off_def record_offset_0)
  have "length c - off + 4 \<le> length c + 4 - sizeof_CompressedMapHeader"
    using off_ge lenc by simp
  with size have avail: "(length c - off + 4) mod 4294967296 = length c - off + 4"
    by simp
  have enough: "length (deflated z (chunk B i)) \<le> length c - off + 4"
    using lenc by simp
  have dok: "deflate_ok z (chunk B i)"
    using compress_file_Inr_D(3)[OF c] i by simp
  have run: "inflate z (length c - off + 4) (deflated z (chunk B i) @ rest) (length (chunk B i))
      = (Z_STREAM_END, chunk B i)"
    using contract dok enough unfolding inflate_inverts_deflate_def by blast
  show "inflate_ok z c (block_offsets c i)"
    using contract run
    by (simp add: inflate_ok_def bo avail input size_prefix inflate_inverts_deflate_def)
  show "inflated z c (block_offsets c i) = chunk B i"
    using run by (simp add: inflated_def bo avail input size_prefix)
qed

lemma decompress_compressed:
  assumes c: "compress_file z B = Inr c" and ne: "B \<noteq> []"
    and contract: "inflate_inverts_deflate z"
    and size: "length c + 4 - sizeof_CompressedMapHeader < 2 ^ 32"
  shows "decompress_file z c = Inr B"
proof -
  note D = compress_file_Inr_D[OF c]
  have bc: "block_count c = chunk_count (length B)"
    using c by (rule compress_file_block_count_field)
  have pos: "0 < block_count c"
    using ne by (simp add: bc chunk_count_pos)
  have hdr: "sizeof_CompressedMapHeader \<le> length c"
  proof -
    have "length (header_bytes (chunk_count (length B))
          (map (record_offset z B) [0..<chunk_count (length B)])) = sizeof_CompressedMapHeader"
      using D(1) by (intro length_header_bytes) simp
    then show ?thesis by (simp add: D(5))
  qed
  note blk = roundtrip_block[OF c _ contract size]
  have nz: "\<forall>i<block_count c. load_u32 c (block_offsets c i) \<noteq> 0"
    using blk(2) chunk_length_ge4[OF D(2)] by (fastforce simp: bc)
  have "decompress_file z c
     = Inr (concat (map (\<lambda>i. inflated z c (block_offsets c i)
                 @ replicate (load_u32 c (block_offsets c i)
                                - length (inflated z c (block_offsets c i))) 0)
              [0..<block_count c]))"
    using hdr pos D(1) blk(1,3) nz by (intro decompress_file_success) (simp_all add: bc)
  also have "map (\<lambda>i. inflated z c (block_offsets c i)
                 @ replicate (load_u32 c (block_offsets c i)
                                - length (inflated z c (block_offsets c i))) 0)
              [0..<block_count c] = map (chunk B) [0..<chunk_count (length B)]"
    unfolding bc by (rule map_cong) (simp_all add: blk(2,4))
  finally show ?thesis by (simp add: concat_chunks)
qed

lemma inflate_inverts_deflate_stored: "inflate_inverts_deflate zlib_stored"
proof -
  have "inflate_stored avail_in (deflated zlib_stored inp @ rest) (length inp) = (Z_STREAM_END, inp)"
    if ok: "deflate_ok zlib_stored inp" and av: "length (deflated zlib_stored inp) \<le> avail_in"
    for inp rest avail_in
  proof -
    have "length inp + 5 * ((length inp - 1) div 65535 + 1) + 6 \<le> avail_in"
      using av by (simp add: deflated_stored[OF ok] length_stored_blocks length_store_be32)
    from inflate_stored_stream[OF this, of "length inp" rest] show ?thesis
      by (simp add: deflated_stored[OF ok])
  qed
  then show ?thesis
    by (simp add: inflate_inverts_deflate_def zlib_stored_def)
qed

text \<open>
  C1 (as amended): for every non-empty input on which \<open>compress_file\<close> succeeds,
  with a codec whose inflate gives back what its deflate was given and a
  container short enough that no declared input length exceeds 32 bits,
  \<open>decompress_file\<close> of the container succeeds and writes the input.
\<close>

theorem decompress_file_compress_file:
  "compress_file z B = Inr c \<Longrightarrow> B \<noteq> [] \<Longrightarrow> inflate_inverts_deflate z \<Longrightarrow>
   length c < 4295229436 \<Longrightarrow> decompress_file z c = Inr B"
  by (rule decompress_compressed) (simp_all add: sizeof_CompressedMapHeader_eq)

theorem decompress_file_compress_file_witness:
  "compress_file zlib_stored (replicate 131088 65)
     = Inr (header_bytes 2 [262144, 393241]
            @ chunk_record zlib_stored (replicate 131072 65)
            @ chunk_record zlib_stored (replicate 16 65))
   \<and> decompress_file zlib_stored
         (header_bytes 2 [262144, 393241]
            @ chunk_record zlib_stored (replicate 131072 65)
            @ chunk_record zlib_stored (replicate 16 65))
       = Inr (replicate 131088 65)"
proof -
  have "length (header_bytes 2 [262144, 393241]
            @ chunk_record zlib_stored (replicate 131072 65)
            @ chunk_record zlib_stored (replicate 16 65)) < 4295229436"
    by (simp add: length_header_bytes MAX_BLOCKS_def sizeof_CompressedMapHeader_eq
          length_chunk_record_stored deflate_ok_stored_full deflate_ok_stored_16)
  from decompress_file_compress_file[OF compress_file_stored_two _
      inflate_inverts_deflate_stored this]
  show ?thesis using compress_file_stored_two by simp
qed

theorem decompress_file_compress_file_counterexample:
  "compress_file zlib_stored [] = Inr (header_bytes 0 [])
   \<and> decompress_file zlib_stored (header_bytes 0 []) = Inl (InvalidBlockCount 0)
   \<and> compress_file zlib_stored [65] = Inl (InvalidOffset 0 0)"
proof -
  have a: "decompress_file zlib_stored (header_bytes 0 []) = Inl (InvalidBlockCount 0)"
    using decompress_file_bad_count[of "header_bytes 0 []" zlib_stored]
      block_count_header_bytes[of 0 "[]" "[]"]
    by (simp add: length_header_bytes)
  have b: "compress_file zlib_stored [65] = Inl (InvalidOffset 0 0)"
    using compress_file_short_tail[of "[65]" zlib_stored]
    by (simp add: CHUNK_SIZE_def sizeof_uint32_def MAX_BLOCKS_def)
  show ?thesis using a b by (simp add: compress_file_empty)
qed

subsection \<open>The input handed to inflate\<close>

lemma length_container_16:
  "length (header_bytes 1 [262144] @ chunk_record zlib_stored (replicate 16 65)) = 262175"
  by (simp add: length_header_bytes MAX_BLOCKS_def sizeof_CompressedMapHeader_eq
        length_chunk_record_stored deflate_ok_stored_16)

text \<open>
  C3: the worker of a block at offset \<open>off\<close> declares
  \<open>file_size - off + sizeof(uncompressed_size)\<close> bytes of input from byte \<open>off + 4\<close>
  on, eight more than the \<open>file_size - off - 4\<close> bytes that lie between the size
  prefix and the end of the file. On the container of sixteen bytes \<open>A\<close>
  (262175 bytes, its block at 262144) the input starts at 262148, 27 bytes
  before the end of the file, and is declared 35 bytes long.
\<close>

theorem decompress_worker_declared_input:
  "input (decompress_worker file off) = off + 4
   \<and> input_size (decompress_worker file off) = length file - off + 4
   \<and> compress_file zlib_stored (replicate 16 65)
       = Inr (header_bytes 1 [262144] @ chunk_record zlib_stored (replicate 16 65))
   \<and> length (header_bytes 1 [262144] @ chunk_record zlib_stored (replicate 16 65)) = 262175
   \<and> decompress_workers
         (header_bytes 1 [262144] @ chunk_record zlib_stored (replicate 16 65)) [0..<1]
       = Inr [decompress_worker
                (header_bytes 1 [262144] @ chunk_record zlib_stored (replicate 16 65)) 262144]
   \<and> input (decompress_worker
         (header_bytes 1 [262144] @ chunk_record zlib_stored (replicate 16 65)) 262144) = 262148
   \<and> input_size (decompress_worker
         (header_bytes 1 [262144] @ chunk_record zlib_stored (replicate 16 65)) 262144) = 35"
proof -
  let ?c = "header_bytes 1 [262144] @ chunk_record zlib_stored (replicate 16 65)"
  have off: "block_offsets ?c 0 = 262144"
    using block_offsets_header_bytes[of 0 "[262144]" 1] by simp
  have ok: "\<forall>i\<in>set [0]. block_offsets ?c i + sizeof_uint32 \<le> length ?c"
    using off length_container_16 by (simp add: sizeof_uint32_def)
  have "decompress_workers ?c [0]
      = Inr (map (\<lambda>i. decompress_worker ?c (block_offsets ?c i)) [0])"
    using ok by (rule decompress_workers_ok)
  then have ws: "decompress_workers ?c [0..<1] = Inr [decompress_worker ?c 262144]"
    using off by simp
  have fields: "input (decompress_worker ?c 262144) = 262148"
    "input_size (decompress_worker ?c 262144) = 35"
    using length_container_16 by (simp_all add: decompress_worker_fields)
  show ?thesis
    using ws fields length_container_16 compress_file_stored_16
    by (simp add: decompress_worker_fields)
qed

subsection \<open>The failure flag of a decompression job\<close>

lemma length_inflated_le: "length (inflated z file off) \<le> load_u32 file off"
  by (simp add: inflated_def)

text \<open>
  The stored-block instance keeps the contract on output space: a block that
  does not fit the room left is \<open>Z_BUF_ERROR\<close>.
\<close>

lemma inflate_blocks_needs_room:
  "inflate_blocks inp cap' acc = (Z_STREAM_END, out) \<Longrightarrow> length acc \<le> cap \<Longrightarrow>
   cap < length out \<Longrightarrow> fst (inflate_blocks inp cap acc) \<noteq> Z_STREAM_END"
proof (induction "length inp" arbitrary: inp acc rule: less_induct)
  case less
  show ?case
  proof (cases "\<exists>h l0 l1 n0 n1 rest. inp = h # l0 # l1 # n0 # n1 # rest")
    case False
    then have "fst (inflate_blocks inp cap' acc) \<noteq> Z_STREAM_END"
      by (subst inflate_blocks.simps) (auto split: list.splits)
    with less.prems(1) show ?thesis by simp
  next
    case True
    then obtain h l0 l1 n0 n1 rest where inp: "inp = h # l0 # l1 # n0 # n1 # rest"
      by blast
    define len where "len = unat l0 + 256 * unat l1"
    define nlen where "nlen = unat n0 + 256 * unat n1"
    have unf: "inflate_blocks inp c acc =
       (if unat h div 2 mod 4 = 3 then (Z_DATA_ERROR, acc)
        else if unat h div 2 mod 4 \<noteq> 0 then (Z_STREAM_ERROR, acc)
        else if len + nlen \<noteq> 65535 then (Z_DATA_ERROR, acc)
        else if length rest < len \<or> c - length acc < len
        then (Z_BUF_ERROR, acc @ take (min len (c - length acc)) rest)
        else if unat h mod 2 = 1
        then (if length (drop len rest) < 4 then (Z_BUF_ERROR, acc @ take len rest)
              else if load_be32 (drop len rest) \<noteq> adler32 (acc @ take len rest)
              then (Z_DATA_ERROR, acc @ take len rest)
              else (Z_STREAM_END, acc @ take len rest))
        else inflate_blocks (drop len rest) c (acc @ take len rest))" for c
      unfolding inp len_def nlen_def by (subst inflate_blocks.simps) (simp add: Let_def)
    from less.prems(1) have ty: "unat h div 2 mod 4 = 0" and ln: "len + nlen = 65535"
      and fit': "len \<le> length rest" "len \<le> cap' - length acc"
      by (auto simp: unf split: if_splits)
    show ?thesis
    proof (cases "cap - length acc < len")
      case True
      then show ?thesis by (simp add: unf ty ln)
    next
      case room: False
      show ?thesis
      proof (cases "unat h mod 2 = 1")
        case True
        with less.prems(1) have "out = acc @ take len rest"
          by (auto simp: unf split: if_splits)
        then have "length out = length acc + len" using fit'(1) by simp
        with room less.prems(2,3) show ?thesis by simp
      next
        case False
        have rec': "inflate_blocks (drop len rest) cap' (acc @ take len rest) = (Z_STREAM_END, out)"
          using less.prems(1) False ty ln fit' by (simp add: unf)
        have "fst (inflate_blocks (drop len rest) cap (acc @ take len rest)) \<noteq> Z_STREAM_END"
        proof (rule less.hyps[OF _ rec' _ less.prems(3)])
          show "length (drop len rest) < length inp" by (simp add: inp)
          show "length (acc @ take len rest) \<le> cap"
            using room less.prems(2) fit'(1) by simp
        qed
        then show ?thesis using False ty ln fit'(1) room by (simp add: unf)
      qed
    qed
  qed
qed

lemma inflate_needs_room_stored: "inflate_needs_room zlib_stored"
proof -
  have "fst (inflate_stored avail_in mem cap) \<noteq> Z_STREAM_END"
    if e: "inflate_stored avail_in mem cap' = (Z_STREAM_END, out)" and c: "cap < length out"
    for avail_in mem cap cap' out
  proof (cases "\<exists>cmf flg body. take avail_in mem = cmf # flg # body")
    case False
    then have "fst (inflate_stored avail_in mem cap') \<noteq> Z_STREAM_END"
      by (auto simp: inflate_stored_def split: list.splits)
    with e show ?thesis by simp
  next
    case True
    then obtain cmf flg body where t: "take avail_in mem = cmf # flg # body" by blast
    from e have b: "inflate_blocks body cap' [] = (Z_STREAM_END, out)"
      and u: "\<And>k. inflate_stored avail_in mem k = inflate_blocks body k []"
      by (auto simp: inflate_stored_def t split: if_splits)
    from inflate_blocks_needs_room[OF b _ c] show ?thesis by (simp add: u)
  qed
  then show ?thesis
    unfolding inflate_needs_room_def zlib_stored_def by auto
qed

text \<open>
  C9 (as amended): the job of the block at \<open>off\<close> sets its failure flag exactly
  when \<open>inflateInit\<close>, \<open>inflate(Z_FINISH)\<close> or \<open>inflateEnd\<close> does not return
  \<open>Z_OK\<close>, \<open>Z_STREAM_END\<close>, \<open>Z_OK\<close>. With a codec that keeps the contract on
  output space, a job whose stream holds more bytes than the declared
  uncompressed size is marked failed. The job never writes more than that size,
  and the number of bytes written is not compared with it: a stream that ends
  after fewer bytes leaves the buffer as the bytes written followed by the zeros
  it was allocated with.
\<close>

theorem perform_decompression_failure_flag:
  "(failure (perform_decompression z file (decompress_worker file off))
      \<longleftrightarrow> \<not> inflate_ok z file off)
   \<and> (inflate_needs_room z
        \<and> inflate z (input_size (decompress_worker file off) mod 2 ^ 32)
            (drop (input (decompress_worker file off)) file) cap = (Z_STREAM_END, out)
        \<and> output_size (decompress_worker file off) < length out \<longrightarrow>
      failure (perform_decompression z file (decompress_worker file off)))
   \<and> length (inflated z file off) \<le> output_size (decompress_worker file off)
   \<and> (inflateInit z = Z_OK \<longrightarrow>
        output (perform_decompression z file (decompress_worker file off))
          = inflated z file off
            @ replicate (output_size (decompress_worker file off)
                           - length (inflated z file off)) 0)"
proof -
  have "\<not> inflate_ok z file off"
    if r: "inflate_needs_room z"
      and e: "inflate z ((length file - off + 4) mod 2 ^ 32) (drop (off + 4) file) cap
                = (Z_STREAM_END, out)"
      and c: "load_u32 file off < length out"
  proof -
    from r e c
    have "fst (inflate z ((length file - off + 4) mod 2 ^ 32) (drop (off + 4) file)
                 (load_u32 file off)) \<noteq> Z_STREAM_END"
      unfolding inflate_needs_room_def by blast
    then show ?thesis unfolding inflate_ok_def by blast
  qed
  then have more: "inflate_needs_room z
        \<and> inflate z (input_size (decompress_worker file off) mod 2 ^ 32)
            (drop (input (decompress_worker file off)) file) cap = (Z_STREAM_END, out)
        \<and> output_size (decompress_worker file off) < length out \<longrightarrow>
      failure (perform_decompression z file (decompress_worker file off))"
    unfolding perform_decompression_failure decompress_worker_fields by blast
  have flag: "failure (perform_decompression z file (decompress_worker file off))
      \<longleftrightarrow> \<not> inflate_ok z file off"
    by (rule perform_decompression_failure)
  have bound: "length (inflated z file off) \<le> output_size (decompress_worker file off)"
    by (simp add: length_inflated_le decompress_worker_fields)
  have rest: "inflateInit z = Z_OK \<longrightarrow>
        output (perform_decompression z file (decompress_worker file off))
          = inflated z file off
            @ replicate (output_size (decompress_worker file off)
                           - length (inflated z file off)) 0"
    by (simp add: perform_decompression_output decompress_worker_fields)
  from flag more bound rest show ?thesis by blast
qed

text \<open>
  A container whose only block declares two bytes and holds the stream of the
  single byte \<open>A\<close>.
\<close>

lemma short_stream_container:
  fixes c :: "byte list"
  assumes c: "c = header_bytes 1 [262144] @ store_u32 2
                @ ([0x78, 0x01] @ stored_blocks [65] @ store_be32 (adler32 [65]))"
  shows "length c = 262160" and "block_count c = 1" and "block_offsets c 0 = 262144"
    and "load_u32 c 262144 = 2"
    and "inflate_ok zlib_stored c 262144" and "inflated zlib_stored c 262144 = [65]"
proof -
  have hl: "length (header_bytes 1 [262144]) = 262144"
    using length_header_bytes[of "[262144]" 1]
    by (simp add: MAX_BLOCKS_def sizeof_CompressedMapHeader_eq)
  show len: "length c = 262160"
    using hl by (simp add: c length_store_u32 length_stored_blocks length_store_be32)
  show "block_count c = 1"
    using block_count_header_bytes[of 1 "[262144]"] by (simp add: c)
  show "block_offsets c 0 = 262144"
    using block_offsets_header_bytes[of 0 "[262144]" 1] by (simp add: c)
  have "load_u32 c 262144 = load_u32 (store_u32 2
          @ ([0x78, 0x01] @ stored_blocks [65] @ store_be32 (adler32 [65]))) 0"
    unfolding c using load_u32_append_right[of "header_bytes 1 [262144]" 262144] hl by simp
  then show pre: "load_u32 c 262144 = 2"
    by (simp only: load_u32_store_u32) simp
  have dr: "drop (262144 + 4) c
      = ([0x78, 0x01] @ stored_blocks [65] @ store_be32 (adler32 [65])) @ []"
    using hl by (simp add: c length_store_u32)
  have run: "inflate_stored 20
        (([0x78, 0x01] @ stored_blocks [65] @ store_be32 (adler32 [65])) @ []) 2
      = (Z_STREAM_END, [65])"
    by (rule inflate_stored_stream) simp_all
  show "inflate_ok zlib_stored c 262144"
    unfolding inflate_ok_def dr pre len using run by (simp add: zlib_stored_def)
  show "inflated zlib_stored c 262144 = [65]"
    unfolding inflated_def dr pre len using run by (simp add: zlib_stored_def)
qed

text \<open>
  A block that declares one byte and holds the stream of the two bytes \<open>AB\<close>.
\<close>

lemma long_stream_block:
  fixes c :: "byte list"
  assumes c: "c = store_u32 1 @ ([0x78, 0x01] @ stored_blocks [65, 66] @ store_be32 (adler32 [65, 66]))"
  shows "output_size (decompress_worker c 0) = 1"
    and "inflate zlib_stored (input_size (decompress_worker c 0) mod 2 ^ 32)
            (drop (input (decompress_worker c 0)) c) 2 = (Z_STREAM_END, [65, 66])"
proof -
  have len: "length c = 17"
    by (simp add: c length_store_u32 length_stored_blocks length_store_be32)
  have "load_u32 c 0 = 1"
    unfolding c by (simp only: load_u32_store_u32) simp
  then show "output_size (decompress_worker c 0) = 1"
    by (simp add: decompress_worker_fields)
  have dr: "drop 4 c = ([0x78, 0x01] @ stored_blocks [65, 66] @ store_be32 (adler32 [65, 66])) @ []"
    by (simp add: c length_store_u32)
  have run: "inflate_stored 21
        (([0x78, 0x01] @ stored_blocks [65, 66] @ store_be32 (adler32 [65, 66])) @ []) 2
      = (Z_STREAM_END, [65, 66])"
    by (rule inflate_stored_stream) simp_all
  show "inflate zlib_stored (input_size (decompress_worker c 0) mod 2 ^ 32)
            (drop (input (decompress_worker c 0)) c) 2 = (Z_STREAM_END, [65, 66])"
    unfolding decompress_worker_fields len using run dr by (simp add: zlib_stored_def)
qed

theorem perform_decompression_failure_flag_witness:
  "\<not> failure (perform_decompression zlib_stored
        (header_bytes 1 [262144] @ store_u32 2
           @ ([0x78, 0x01] @ stored_blocks [65] @ store_be32 (adler32 [65])))
        (decompress_worker
           (header_bytes 1 [262144] @ store_u32 2
              @ ([0x78, 0x01] @ stored_blocks [65] @ store_be32 (adler32 [65]))) 262144))
   \<and> failure (perform_decompression zlib_stored (replicate 8 0)
        (decompress_worker (replicate 8 0) 0))
   \<and> failure (perform_decompression zlib_stored
        (store_u32 1 @ ([0x78, 0x01] @ stored_blocks [65, 66] @ store_be32 (adler32 [65, 66])))
        (decompress_worker
           (store_u32 1 @ ([0x78, 0x01] @ stored_blocks [65, 66] @ store_be32 (adler32 [65, 66])))
           0))
   \<and> output (perform_decompression zlib_stored
        (header_bytes 1 [262144] @ store_u32 2
           @ ([0x78, 0x01] @ stored_blocks [65] @ store_be32 (adler32 [65])))
        (decompress_worker
           (header_bytes 1 [262144] @ store_u32 2
              @ ([0x78, 0x01] @ stored_blocks [65] @ store_be32 (adler32 [65]))) 262144))
       = [65, 0]"
proof -
  have r4: "replicate 4 (0 :: byte) = [0, 0, 0, 0]"
    by (simp add: numeral_eq_Suc)
  have "inflate_stored 12 (replicate 4 0) k = (Z_DATA_ERROR, [])" for k
    by (simp add: inflate_stored_def r4)
  then have bad: "\<not> inflate_ok zlib_stored (replicate 8 0) 0"
    by (simp add: inflate_ok_def zlib_stored_def)
  note l = long_stream_block[OF refl]
  have two: "(1 :: nat) < length [65 :: byte, 66]" by simp
  have more: "failure (perform_decompression zlib_stored
        (store_u32 1 @ ([0x78, 0x01] @ stored_blocks [65, 66] @ store_be32 (adler32 [65, 66])))
        (decompress_worker
           (store_u32 1 @ ([0x78, 0x01] @ stored_blocks [65, 66] @ store_be32 (adler32 [65, 66])))
           0))"
    using perform_decompression_failure_flag[of zlib_stored
        "store_u32 1 @ ([0x78, 0x01] @ stored_blocks [65, 66] @ store_be32 (adler32 [65, 66]))"
        0 2 "[65, 66]"]
      inflate_needs_room_stored l(2) two
    unfolding l(1) by blast
  define c :: "byte list" where "c = header_bytes 1 [262144] @ store_u32 2
                @ ([0x78, 0x01] @ stored_blocks [65] @ store_be32 (adler32 [65]))"
  note f = short_stream_container[OF c_def]
  note t = perform_decompression_failure_flag[of zlib_stored c 262144]
  have init: "inflateInit zlib_stored = Z_OK" by (simp add: zlib_stored_def)
  from t f(5) have good: "\<not> failure (perform_decompression zlib_stored c
      (decompress_worker c 262144))"
    by blast
  from t init have "output (perform_decompression zlib_stored c (decompress_worker c 262144))
      = inflated zlib_stored c 262144
        @ replicate (output_size (decompress_worker c 262144)
                       - length (inflated zlib_stored c 262144)) 0"
    by blast
  then have out: "output (perform_decompression zlib_stored c (decompress_worker c 262144))
      = [65, 0]"
    by (simp add: f(4,6) decompress_worker_fields)
  have zeros: "failure (perform_decompression zlib_stored (replicate 8 0)
        (decompress_worker (replicate 8 0) 0))"
    using perform_decompression_failure_flag[of zlib_stored "replicate 8 0" 0] bad by blast
  show ?thesis
    using good zeros more out unfolding c_def by blast
qed

theorem perform_decompression_failure_flag_counterexample:
  "output_size (decompress_worker
        (header_bytes 1 [262144] @ store_u32 2
           @ ([0x78, 0x01] @ stored_blocks [65] @ store_be32 (adler32 [65]))) 262144) = 2
   \<and> inflated zlib_stored
        (header_bytes 1 [262144] @ store_u32 2
           @ ([0x78, 0x01] @ stored_blocks [65] @ store_be32 (adler32 [65]))) 262144 = [65]
   \<and> \<not> failure (perform_decompression zlib_stored
        (header_bytes 1 [262144] @ store_u32 2
           @ ([0x78, 0x01] @ stored_blocks [65] @ store_be32 (adler32 [65])))
        (decompress_worker
           (header_bytes 1 [262144] @ store_u32 2
              @ ([0x78, 0x01] @ stored_blocks [65] @ store_be32 (adler32 [65]))) 262144))
   \<and> decompress_file zlib_stored
        (header_bytes 1 [262144] @ store_u32 2
           @ ([0x78, 0x01] @ stored_blocks [65] @ store_be32 (adler32 [65])))
       = Inr [65, 0]"
proof -
  define c :: "byte list" where "c = header_bytes 1 [262144] @ store_u32 2
                @ ([0x78, 0x01] @ stored_blocks [65] @ store_be32 (adler32 [65]))"
  note f = short_stream_container[OF c_def]
  have a: "output_size (decompress_worker c 262144) = 2"
    by (simp add: decompress_worker_fields f(4))
  have b: "\<not> failure (perform_decompression zlib_stored c (decompress_worker c 262144))"
    by (simp add: perform_decompression_failure f(5))
  have "decompress_file zlib_stored c
     = Inr (concat (map (\<lambda>i. inflated zlib_stored c (block_offsets c i)
                 @ replicate (load_u32 c (block_offsets c i)
                                - length (inflated zlib_stored c (block_offsets c i))) 0)
              [0..<block_count c]))"
    by (rule decompress_file_success)
       (simp_all add: f sizeof_CompressedMapHeader_eq MAX_BLOCKS_def sizeof_uint32_def)
  then have d: "decompress_file zlib_stored c = Inr [65, 0]"
    by (simp add: f)
  show ?thesis
    using a b d f(6) unfolding c_def by simp
qed

subsection \<open>Failing jobs in the two drivers\<close>

lemma compress_file_failed_flags:
  assumes "length B mod CHUNK_SIZE = 0 \<or> sizeof_uint32 \<le> length B mod CHUNK_SIZE"
    and "chunk_count (length B) \<le> MAX_BLOCKS"
    and "\<exists>i<chunk_count (length B).
           failure (perform_compression z B (compress_worker (length B) (i * CHUNK_SIZE)))"
  shows "compress_file z B
     = Inl (BlocksFailed (filter
              (\<lambda>i. failure (perform_compression z B (compress_worker (length B) (i * CHUNK_SIZE))))
              [0..<chunk_count (length B)]))"
proof -
  define ws where "ws = map (\<lambda>i. perform_compression z B (compress_worker (length B) (i * CHUNK_SIZE)))
                    [0..<chunk_count (length B)]"
  have fb: "failed_blocks ws = filter
              (\<lambda>i. failure (perform_compression z B (compress_worker (length B) (i * CHUNK_SIZE))))
              [0..<chunk_count (length B)]"
    unfolding ws_def by (rule failed_blocks_upt)
  then have "failed_blocks ws \<noteq> []"
    using assms(3) by (auto simp: filter_empty_conv)
  then show ?thesis
    using compress_file_planned[OF assms(1,2) ws_def] fb by simp
qed

lemma decompress_file_failed_flags:
  assumes "sizeof_CompressedMapHeader \<le> length file" "0 < block_count file"
    "block_count file \<le> MAX_BLOCKS"
    "\<forall>i<block_count file. block_offsets file i + sizeof_uint32 \<le> length file"
    "\<exists>i<block_count file.
       failure (perform_decompression z file (decompress_worker file (block_offsets file i)))"
  shows "decompress_file z file
     = Inl (BlocksFailed (filter
              (\<lambda>i. failure (perform_decompression z file
                               (decompress_worker file (block_offsets file i))))
              [0..<block_count file]))"
proof -
  define ws where "ws = map (\<lambda>i. perform_decompression z file
                       (decompress_worker file (block_offsets file i))) [0..<block_count file]"
  have fb: "failed_blocks ws = filter
              (\<lambda>i. failure (perform_decompression z file
                               (decompress_worker file (block_offsets file i))))
              [0..<block_count file]"
    unfolding ws_def by (rule failed_blocks_upt)
  then have "failed_blocks ws \<noteq> []"
    using assms(5) by (auto simp: filter_empty_conv)
  then show ?thesis
    using decompress_file_planned[OF assms(1-4) ws_def] fb by simp
qed

lemma upt_3: "[0..<3] = [0, Suc 0, Suc (Suc 0)]"
  by (simp add: upt_rec)

text \<open>
  A container of three blocks: the second is the record of the single byte \<open>A\<close>,
  the first and the third point at eight zero bytes behind it.
\<close>

lemma mixed_container:
  fixes c :: "byte list"
  assumes c: "c = header_bytes 3 [262160, 262144, 262160]
                @ (store_u32 1 @ ([0x78, 0x01] @ stored_blocks [65] @ store_be32 (adler32 [65])))
                @ replicate 8 0"
  shows "length c = 262168" and "block_count c = 3"
    and "block_offsets c 0 = 262160" and "block_offsets c 1 = 262144"
    and "block_offsets c 2 = 262160"
    and "inflate_ok zlib_stored c 262144" and "\<not> inflate_ok zlib_stored c 262160"
proof -
  define g :: "byte list" where
    "g = store_u32 1 @ ([0x78, 0x01] @ stored_blocks [65] @ store_be32 (adler32 [65]))"
  have hl: "length (header_bytes 3 [262160, 262144, 262160]) = 262144"
    using length_header_bytes[of "[262160, 262144, 262160]" 3]
    by (simp add: MAX_BLOCKS_def sizeof_CompressedMapHeader_eq)
  have gl: "length g = 16"
    by (simp add: g_def length_store_u32 length_stored_blocks length_store_be32)
  have c': "c = header_bytes 3 [262160, 262144, 262160] @ g @ replicate 8 0"
    by (simp add: c g_def)
  show len: "length c = 262168"
    using hl gl by (simp add: c')
  show "block_count c = 3"
    using block_count_header_bytes[of 3 "[262160, 262144, 262160]"] by (simp add: c)
  show "block_offsets c 0 = 262160"
    using block_offsets_header_bytes[of 0 "[262160, 262144, 262160]" 3] by (simp add: c)
  show "block_offsets c 1 = 262144"
    using block_offsets_header_bytes[of 1 "[262160, 262144, 262160]" 3] by (simp add: c)
  show "block_offsets c 2 = 262160"
    using block_offsets_header_bytes[of 2 "[262160, 262144, 262160]" 3] by (simp add: c)
  have "load_u32 c 262144 = load_u32 (g @ replicate 8 0) 0"
    unfolding c' using load_u32_append_right[of "header_bytes 3 [262160, 262144, 262160]" 262144] hl
    by simp
  then have pre: "load_u32 c 262144 = 1"
    unfolding g_def append_assoc by (simp only: load_u32_store_u32) simp
  have dr: "drop (262144 + 4) c
      = ([0x78, 0x01] @ stored_blocks [65] @ store_be32 (adler32 [65])) @ replicate 8 0"
    using hl by (simp add: c length_store_u32)
  have run: "inflate_stored 28
        (([0x78, 0x01] @ stored_blocks [65] @ store_be32 (adler32 [65])) @ replicate 8 0) 1
      = (Z_STREAM_END, [65])"
    by (rule inflate_stored_stream) simp_all
  show "inflate_ok zlib_stored c 262144"
    unfolding inflate_ok_def dr pre len using run by (simp add: zlib_stored_def)
  have dr2: "drop (262160 + 4) c = replicate 4 0"
    using hl gl by (simp add: c')
  have r4: "replicate 4 (0 :: byte) = [0, 0, 0, 0]"
    by (simp add: numeral_eq_Suc)
  have bad: "inflate_stored 12 (replicate 4 0) k = (Z_DATA_ERROR, [])" for k
    by (simp add: inflate_stored_def r4)
  show "\<not> inflate_ok zlib_stored c 262160"
    unfolding inflate_ok_def dr2 len by (simp add: zlib_stored_def bad)
qed

lemma decompress_file_mixed:
  "decompress_file zlib_stored
     (header_bytes 3 [262160, 262144, 262160]
        @ (store_u32 1 @ ([0x78, 0x01] @ stored_blocks [65] @ store_be32 (adler32 [65])))
        @ replicate 8 0)
   = Inl (BlocksFailed [0, 2])"
proof -
  define c :: "byte list" where "c = header_bytes 3 [262160, 262144, 262160]
                @ (store_u32 1 @ ([0x78, 0x01] @ stored_blocks [65] @ store_be32 (adler32 [65])))
                @ replicate 8 0"
  note f = mixed_container[OF c_def]
  have lt3: "i < 3 \<longleftrightarrow> i = 0 \<or> i = Suc 0 \<or> i = Suc (Suc 0)" for i :: nat by auto
  have o1: "block_offsets c (Suc 0) = 262144" using f(4) by simp
  have o2: "block_offsets c (Suc (Suc 0)) = 262160" using f(5) by (simp add: numeral_2_eq_2)
  have "decompress_file zlib_stored c
     = Inl (BlocksFailed (filter (\<lambda>i. \<not> inflate_ok zlib_stored c (block_offsets c i))
                            [0..<block_count c]))"
    by (rule decompress_file_blocks_failed)
       (auto simp: f o1 o2 lt3 sizeof_CompressedMapHeader_eq MAX_BLOCKS_def sizeof_uint32_def)
  then show ?thesis
    unfolding c_def[symmetric] by (simp add: f upt_3 o1 o2)
qed

text \<open>A file of two chunks whose second chunk, eight bytes, does not fit its buffer.\<close>

lemma compress_file_tail_8:
  "compress_file zlib_stored (replicate 131080 65) = Inl (BlocksFailed [1])"
proof -
  have cc: "chunk_count 131080 = 2"
    by (simp add: chunk_count_def CHUNK_SIZE_def)
  have ch0: "chunk (replicate 131080 (65 :: byte)) 0 = replicate 131072 65"
    by (simp add: chunk_replicate CHUNK_SIZE_def)
  have ch1: "chunk (replicate 131080 (65 :: byte)) (Suc 0) = replicate 8 65"
    by (simp add: chunk_replicate CHUNK_SIZE_def)
  have bad: "\<not> deflate_ok zlib_stored (replicate 8 x)" for x
    by (simp add: deflate_ok_stored)
  have "compress_file zlib_stored (replicate 131080 65)
     = Inl (BlocksFailed (filter (\<lambda>i. \<not> deflate_ok zlib_stored (chunk (replicate 131080 65) i))
              [0..<chunk_count (length (replicate 131080 (65 :: byte)))]))"
  proof (rule compress_file_blocks_failed)
    show "length (replicate 131080 (65 :: byte)) mod CHUNK_SIZE = 0
        \<or> sizeof_uint32 \<le> length (replicate 131080 (65 :: byte)) mod CHUNK_SIZE"
      by (simp add: CHUNK_SIZE_def sizeof_uint32_def)
    show "chunk_count (length (replicate 131080 (65 :: byte))) \<le> MAX_BLOCKS"
      by (simp add: cc MAX_BLOCKS_def)
    have "Suc 0 < chunk_count (length (replicate 131080 (65 :: byte)))"
      by (simp add: cc)
    moreover have "\<not> deflate_ok zlib_stored (chunk (replicate 131080 65) (Suc 0))"
      by (simp add: ch1 bad)
    ultimately show "\<exists>i<chunk_count (length (replicate 131080 (65 :: byte))).
        \<not> deflate_ok zlib_stored (chunk (replicate 131080 65) i)"
      by blast
  qed
  then show ?thesis
    by (simp add: cc upt_2 ch0 ch1 bad deflate_ok_stored_full)
qed

subsection \<open>The dispatch loop\<close>

lemma next_worker_Some: "next_worker ws = Some k \<Longrightarrow> lowest_pending ws k"
proof (induction ws arbitrary: k)
  case Nil
  then show ?case by simp
next
  case (Cons w ws)
  show ?case
  proof (cases "started w")
    case False
    with Cons.prems show ?thesis by (simp add: lowest_pending_def)
  next
    case True
    with Cons.prems obtain k' where k': "next_worker ws = Some k'" "k = Suc k'"
      by auto
    from Cons.IH[OF k'(1)] True k'(2) show ?thesis
      by (auto simp: lowest_pending_def less_Suc_eq_0_disj)
  qed
qed

lemma next_worker_None: "next_worker ws = None \<Longrightarrow> \<forall>j<length ws. started (ws ! j)"
proof (induction ws)
  case Nil
  then show ?case by simp
next
  case (Cons w ws)
  then show ?case by (auto simp: less_Suc_eq_0_disj split: if_splits)
qed

lemma next_worker_started:
  "map started ws' = map started ws \<Longrightarrow> next_worker ws' = next_worker ws"
proof (induction ws arbitrary: ws')
  case Nil
  then show ?case by simp
next
  case (Cons w ws)
  from Cons.prems obtain w' ws'' where ws': "ws' = w' # ws''"
    by (cases ws') auto
  from Cons.prems have hd: "started w' = started w" and tl: "map started ws'' = map started ws"
    unfolding ws' by simp_all
  have "next_worker ws'' = next_worker ws" using tl by (rule Cons.IH)
  then show ?case unfolding ws' by (simp add: hd)
qed

lemma started_thread_step:
  assumes "\<forall>w. started (function w) = started w"
  shows "map started (ws[i := function (ws ! i)]) = map started ws"
proof (cases "i < length ws")
  case True
  have "map started (ws[i := function (ws ! i)]) = (map started ws)[i := started (ws ! i)]"
    using assms by (simp add: map_update)
  also have "\<dots> = (map started ws)[i := map started ws ! i]"
    using True by simp
  also have "\<dots> = map started ws" by (rule list_update_id)
  finally show ?thesis .
next
  case False
  then have "ws[i := function (ws ! i)] = ws" by (intro list_update_beyond) simp
  then show ?thesis by simp
qed

lemma busy_below_thread:
  assumes "\<forall>w. started (function w) = started w" "i < length m"
  shows "busy_below (ws[i := function (ws ! i)]) (m[i := False]) k \<le> busy_below ws m k"
proof (induction k)
  case 0
  then show ?case by simp
next
  case (Suc k)
  show ?case
  proof (cases "k = i")
    case True
    then show ?thesis using Suc assms(2) by simp
  next
    case False
    have "started (ws[i := function (ws ! i)] ! k) = started (ws ! k)"
      using False by simp
    then show ?thesis using Suc False by simp
  qed
qed

lemma busy_below_dispatch:
  "busy_below (ws[k0 := (ws ! k0)\<lparr>started := True\<rparr>]) m k
     \<le> busy_below ws m k + (if k0 < k then 1 else 0)"
proof (induction k)
  case 0
  then show ?case by simp
next
  case (Suc k)
  show ?case
  proof (cases "k = k0")
    case True
    then show ?thesis using Suc by simp
  next
    case False
    have "started (ws[k0 := (ws ! k0)\<lparr>started := True\<rparr>] ! k) = started (ws ! k)"
      using False by simp
    then show ?thesis using Suc False by (auto simp: less_Suc_eq)
  qed
qed

lemma busy_below_fresh: "\<forall>w\<in>set ws. \<not> started w \<Longrightarrow> k \<le> length ws \<Longrightarrow> busy_below ws m k = 0"
  by (induction k) simp_all

lemma reachable_invariant:
  assumes r: "reachable max_threads function ws s"
    and fresh: "\<forall>w\<in>set ws. \<not> started w"
    and pres: "\<forall>w. started (function w) = started w"
  shows "length (workers s) = length ws \<and> length (mutex s) = length ws
     \<and> (\<forall>i<length ws. \<not> started (workers s ! i) \<longrightarrow> mutex s ! i)
     \<and> busy_workers (workers s) (mutex s) \<le> max_threads
     \<and> (\<forall>nxt i busy_count. pc s = Scan nxt i busy_count \<longrightarrow>
           nxt = next_worker (workers s) \<and> i \<le> length ws
           \<and> busy_below (workers s) (mutex s) i \<le> busy_count)"
  using r
proof (induction rule: reachable.induct)
  case init
  show ?case
    using fresh by (simp add: init_sched_def busy_workers_def busy_below_fresh)
next
  case (step s s')
  note IH = step.IH
  from IH have lw: "length (workers s) = length ws" and lm: "length (mutex s) = length ws"
    and locked: "\<forall>i<length ws. \<not> started (workers s ! i) \<longrightarrow> mutex s ! i"
    and busy: "busy_workers (workers s) (mutex s) \<le> max_threads"
    and scan: "\<And>nxt i busy_count. pc s = Scan nxt i busy_count \<Longrightarrow>
           nxt = next_worker (workers s) \<and> i \<le> length ws
           \<and> busy_below (workers s) (mutex s) i \<le> busy_count"
    by blast+
  from step.hyps(2) show ?case
  proof (cases rule: step.cases)
    case main
    show ?thesis
    proof (cases "pc s")
      case Poll
      then have s': "s' = s\<lparr>pc := Scan (next_worker (workers s)) 0 0\<rparr>"
        using main by (simp add: main_step_def)
      show ?thesis
        unfolding s' using lw lm locked busy by simp
    next
      case Exit
      with main show ?thesis by simp
    next
      case (Scan nxt i busy_count)
      from scan[OF Scan] have nx: "nxt = next_worker (workers s)" and il: "i \<le> length ws"
        and bb: "busy_below (workers s) (mutex s) i \<le> busy_count"
        by blast+
      show ?thesis
      proof (cases "i < length (workers s)")
        case True
        define c' where "c' = (if \<not> mutex s ! i then busy_count
                               else busy_count + (if started (workers s ! i) then 1 else 0))"
        have s': "s' = s\<lparr>pc := Scan nxt (i + 1) c'\<rparr>"
          using main Scan True by (simp add: main_step_def c'_def)
        have "busy_below (workers s) (mutex s) (Suc i) \<le> c'"
          using bb by (simp add: c'_def)
        then show ?thesis
          unfolding s' using lw lm locked busy nx True by simp
      next
        case False
        then have i: "i = length ws" using il lw by simp
        have total: "busy_workers (workers s) (mutex s) \<le> busy_count"
          using bb by (simp add: busy_workers_def i lw)
        show ?thesis
        proof (cases "nxt")
          case None
          then have "s' = s\<lparr>pc := Exit\<rparr> \<or> s' = s\<lparr>pc := Poll\<rparr>"
            using main Scan False by (simp add: main_step_def)
          then show ?thesis using lw lm locked busy by auto
        next
          case (Some k)
          show ?thesis
          proof (cases "busy_count < max_threads")
            case False
            then have "s' = s\<lparr>pc := Poll\<rparr>"
              using main Scan Some \<open>\<not> i < length (workers s)\<close> by (simp add: main_step_def)
            then show ?thesis using lw lm locked busy by simp
          next
            case True
            have s': "s' = s\<lparr>workers := (workers s)[k := (workers s ! k)\<lparr>started := True\<rparr>],
                             pc := Poll\<rparr>"
              using main Scan Some True \<open>\<not> i < length (workers s)\<close> by (simp add: main_step_def)
            have "busy_workers ((workers s)[k := (workers s ! k)\<lparr>started := True\<rparr>]) (mutex s)
                \<le> busy_workers (workers s) (mutex s) + 1"
              using busy_below_dispatch[of "workers s" k "mutex s" "length (workers s)"]
              by (simp add: busy_workers_def split: if_splits)
            then have b': "busy_workers ((workers s)[k := (workers s ! k)\<lparr>started := True\<rparr>])
                (mutex s) \<le> max_threads"
              using total True by simp
            have l': "\<forall>i<length ws. \<not> started ((workers s)[k := (workers s ! k)\<lparr>started := True\<rparr>] ! i)
                \<longrightarrow> mutex s ! i"
            proof (intro allI impI)
              fix j assume j: "j < length ws"
                and ns: "\<not> started ((workers s)[k := (workers s ! k)\<lparr>started := True\<rparr>] ! j)"
              have "j \<noteq> k"
              proof
                assume "j = k"
                with ns j lw show False by simp
              qed
              with ns have "\<not> started (workers s ! j)" by simp
              with locked j show "mutex s ! j" by simp
            qed
            show ?thesis
              unfolding s' using lw lm l' b' by simp
          qed
        qed
      qed
    qed
  next
    case (thread i)
    have s': "s' = s\<lparr>workers := (workers s)[i := function (workers s ! i)],
                     mutex := (mutex s)[i := False]\<rparr>"
      using thread(1) by (simp add: thread_step_def)
    have st: "map started ((workers s)[i := function (workers s ! i)]) = map started (workers s)"
      using pres by (rule started_thread_step)
    have st_nth: "started ((workers s)[i := function (workers s ! i)] ! j) = started (workers s ! j)"
      if "j < length ws" for j
    proof -
      have "map started ((workers s)[i := function (workers s ! i)]) ! j
          = map started (workers s) ! j"
        by (simp only: st)
      then show ?thesis using that lw by simp
    qed
    have il: "i < length (mutex s)" using thread(2) lw lm by simp
    have mono: "busy_below ((workers s)[i := function (workers s ! i)]) ((mutex s)[i := False]) k
        \<le> busy_below (workers s) (mutex s) k" for k
      using pres il by (rule busy_below_thread)
    have b': "busy_workers ((workers s)[i := function (workers s ! i)]) ((mutex s)[i := False])
        \<le> max_threads"
      using mono[of "length (workers s)"] busy by (simp add: busy_workers_def)
    have l': "\<forall>j<length ws. \<not> started ((workers s)[i := function (workers s ! i)] ! j)
        \<longrightarrow> (mutex s)[i := False] ! j"
    proof (intro allI impI)
      fix j assume j: "j < length ws"
        and ns: "\<not> started ((workers s)[i := function (workers s ! i)] ! j)"
      from ns have nsj: "\<not> started (workers s ! j)" using st_nth[OF j] by simp
      with thread(3) have "j \<noteq> i" by auto
      with locked j nsj show "(mutex s)[i := False] ! j" by simp
    qed
    have nw: "next_worker ((workers s)[i := function (workers s ! i)]) = next_worker (workers s)"
      using st by (rule next_worker_started)
    have sc': "\<forall>nxt j busy_count. pc s = Scan nxt j busy_count \<longrightarrow>
           nxt = next_worker ((workers s)[i := function (workers s ! i)]) \<and> j \<le> length ws
           \<and> busy_below ((workers s)[i := function (workers s ! i)]) ((mutex s)[i := False]) j
               \<le> busy_count"
      using scan mono nw by (metis le_trans)
    show ?thesis
      unfolding s' using lw lm l' b' sc' by simp
  qed
qed

lemma lowest_pending_unique: "lowest_pending ws k \<Longrightarrow> lowest_pending ws k' \<Longrightarrow> k = k'"
  by (metis lowest_pending_def linorder_neqE_nat)

lemma main_step_workers:
  "workers (main_step max_threads s) = workers s
   \<or> (\<exists>k busy_count. pc s = Scan (Some k) (length (workers s)) busy_count
          \<and> busy_count < max_threads
          \<and> workers (main_step max_threads s) = (workers s)[k := (workers s ! k)\<lparr>started := True\<rparr>])
   \<or> (\<exists>k i busy_count. pc s = Scan (Some k) i busy_count \<and> length (workers s) < i)"
proof (cases "pc s")
  case Poll
  then show ?thesis by (simp add: main_step_def)
next
  case Exit
  then show ?thesis by (simp add: main_step_def)
next
  case (Scan nxt i busy_count)
  show ?thesis
  proof (cases "i < length (workers s)")
    case True
    then show ?thesis using Scan by (simp add: main_step_def)
  next
    case False
    show ?thesis
    proof (cases nxt)
      case None
      then show ?thesis using Scan False by (simp add: main_step_def)
    next
      case (Some k)
      show ?thesis
      proof (cases "busy_count < max_threads")
        case True
        then show ?thesis
          using Scan False Some by (cases "i = length (workers s)") (auto simp: main_step_def)
      next
        case False
        then show ?thesis using Scan \<open>\<not> i < length (workers s)\<close> Some by (simp add: main_step_def)
      qed
    qed
  qed
qed

text \<open>
  C10: in every state the threaded path of \<open>perform_job\<close> can reach (which it
  takes when \<open>max_threads > 1\<close>), the number of workers that have been started
  and still hold their mutex is at most \<open>max_threads\<close>, which is
  \<open>max(1, max_threads)\<close> there; every step leaves the \<open>started\<close> flags as they
  are or starts exactly the lowest-index worker not started yet; and at the end
  of a scan that counted fewer than \<open>max_threads\<close> busy workers, with a worker
  left to start, the main thread starts the lowest-index such worker.
\<close>

theorem dispatch_loop_capacity_and_order:
  assumes "reachable max_threads function ws s" and "\<not> max_threads \<le> 1"
    and "\<forall>w\<in>set ws. \<not> started w" and "\<forall>w. started (function w) = started w"
  shows "busy_workers (workers s) (mutex s) \<le> max 1 max_threads
     \<and> (\<forall>s'. step max_threads function s s' \<longrightarrow>
            map started (workers s') = map started (workers s)
            \<or> (\<exists>k. lowest_pending (workers s) k
                   \<and> map started (workers s') = (map started (workers s))[k := True]))
     \<and> (\<forall>nxt busy_count.
            pc s = Scan nxt (length ws) busy_count \<and> busy_count < max_threads
            \<and> (\<exists>j<length ws. \<not> started (workers s ! j)) \<longrightarrow>
            (\<exists>k. lowest_pending (workers s) k
                 \<and> workers (main_step max_threads s)
                     = (workers s)[k := (workers s ! k)\<lparr>started := True\<rparr>]))"
proof -
  note inv = reachable_invariant[OF assms(1,3,4)]
  from inv have lw: "length (workers s) = length ws"
    and busy: "busy_workers (workers s) (mutex s) \<le> max_threads"
    and scan: "\<And>nxt i busy_count. pc s = Scan nxt i busy_count \<Longrightarrow>
           nxt = next_worker (workers s) \<and> i \<le> length ws"
    by blast+
  have a: "busy_workers (workers s) (mutex s) \<le> max 1 max_threads"
    using busy by simp
  have b: "map started (workers s') = map started (workers s)
            \<or> (\<exists>k. lowest_pending (workers s) k
                   \<and> map started (workers s') = (map started (workers s))[k := True])"
    if "step max_threads function s s'" for s'
    using that
  proof (cases rule: step.cases)
    case main
    from main_step_workers[of max_threads s] show ?thesis
    proof (elim disjE exE conjE)
      assume "workers (main_step max_threads s) = workers s"
      then show ?thesis using main by simp
    next
      fix k busy_count
      assume pc: "pc s = Scan (Some k) (length (workers s)) busy_count"
        and w: "workers (main_step max_threads s) = (workers s)[k := (workers s ! k)\<lparr>started := True\<rparr>]"
      from scan[OF pc] have "next_worker (workers s) = Some k" by simp
      then have "lowest_pending (workers s) k" by (rule next_worker_Some)
      moreover have "map started (workers s') = (map started (workers s))[k := True]"
        using main w by (simp add: map_update)
      ultimately show ?thesis by blast
    next
      fix k i busy_count
      assume pc: "pc s = Scan (Some k) i busy_count" and "length (workers s) < i"
      with scan[OF pc] lw show ?thesis by simp
    qed
  next
    case (thread i)
    then show ?thesis
      using started_thread_step[OF assms(4), of "workers s" i] by (simp add: thread_step_def)
  qed
  have c: "\<exists>k. lowest_pending (workers s) k
                 \<and> workers (main_step max_threads s)
                     = (workers s)[k := (workers s ! k)\<lparr>started := True\<rparr>]"
    if pc: "pc s = Scan nxt (length ws) busy_count" and cap: "busy_count < max_threads"
      and pend: "\<exists>j<length ws. \<not> started (workers s ! j)" for nxt busy_count
  proof -
    from scan[OF pc] have nx: "nxt = next_worker (workers s)" by simp
    have "next_worker (workers s) \<noteq> None"
      using next_worker_None[of "workers s"] pend lw by auto
    then obtain k where k: "next_worker (workers s) = Some k" by auto
    have "workers (main_step max_threads s) = (workers s)[k := (workers s ! k)\<lparr>started := True\<rparr>]"
      using pc nx k cap lw by (simp add: main_step_def)
    with next_worker_Some[OF k] show ?thesis by blast
  qed
  from a b c show ?thesis by blast
qed

lemma reachable_main:
  "reachable max_threads function ws s \<Longrightarrow> pc s \<noteq> Exit \<Longrightarrow>
   reachable max_threads function ws (main_step max_threads s)"
  by (erule reachable.step) (rule step.main)

text \<open>
  Three fresh workers and two threads: the state at the end of the first scan,
  and the state after the second worker has been started.
\<close>

lemma three_workers_first_scan:
  "reachable 2 function [Worker0, Worker0, Worker0]
     \<lparr>workers = [Worker0, Worker0, Worker0], mutex = [True, True, True],
      pc = Scan (Some 0) 3 0\<rparr>"
proof -
  let ?ws = "[Worker0, Worker0, Worker0]"
  let ?m = "[True, True, True]"
  have ns: "\<not> started Worker0" by (simp add: Worker0_def)
  have r0: "reachable 2 function ?ws \<lparr>workers = ?ws, mutex = ?m, pc = Poll\<rparr>"
    using reachable.init[of 2 "function" ?ws] by (simp add: init_sched_def numeral_3_eq_3)
  have r1: "reachable 2 function ?ws \<lparr>workers = ?ws, mutex = ?m, pc = Scan (Some 0) 0 0\<rparr>"
    using reachable_main[OF r0] ns by (simp add: main_step_def numeral_2_eq_2 numeral_3_eq_3)
  have r2: "reachable 2 function ?ws \<lparr>workers = ?ws, mutex = ?m, pc = Scan (Some 0) 1 0\<rparr>"
    using reachable_main[OF r1] ns by (simp add: main_step_def numeral_2_eq_2 numeral_3_eq_3)
  have r3: "reachable 2 function ?ws \<lparr>workers = ?ws, mutex = ?m, pc = Scan (Some 0) 2 0\<rparr>"
    using reachable_main[OF r2] ns by (simp add: main_step_def numeral_2_eq_2 numeral_3_eq_3)
  show ?thesis
    using reachable_main[OF r3] ns by (simp add: main_step_def numeral_2_eq_2 numeral_3_eq_3)
qed

lemma three_workers_two_started:
  "reachable 2 function [Worker0, Worker0, Worker0]
     \<lparr>workers = [Worker0\<lparr>started := True\<rparr>, Worker0\<lparr>started := True\<rparr>, Worker0],
      mutex = [True, True, True], pc = Poll\<rparr>"
proof -
  let ?ws = "[Worker0, Worker0, Worker0]"
  let ?w1 = "[Worker0\<lparr>started := True\<rparr>, Worker0, Worker0]"
  let ?m = "[True, True, True]"
  have ns: "\<not> started Worker0" by (simp add: Worker0_def)
  have r5: "reachable 2 function ?ws \<lparr>workers = ?w1, mutex = ?m, pc = Poll\<rparr>"
    using reachable_main[OF three_workers_first_scan[of "function"]]
    by (simp add: main_step_def numeral_2_eq_2 numeral_3_eq_3)
  have r6: "reachable 2 function ?ws \<lparr>workers = ?w1, mutex = ?m, pc = Scan (Some 1) 0 0\<rparr>"
    using reachable_main[OF r5] ns by (simp add: main_step_def numeral_2_eq_2 numeral_3_eq_3)
  have r7: "reachable 2 function ?ws \<lparr>workers = ?w1, mutex = ?m, pc = Scan (Some 1) 1 1\<rparr>"
    using reachable_main[OF r6] ns by (simp add: main_step_def numeral_2_eq_2 numeral_3_eq_3)
  have r8: "reachable 2 function ?ws \<lparr>workers = ?w1, mutex = ?m, pc = Scan (Some 1) 2 1\<rparr>"
    using reachable_main[OF r7] ns by (simp add: main_step_def numeral_2_eq_2 numeral_3_eq_3)
  have r9: "reachable 2 function ?ws \<lparr>workers = ?w1, mutex = ?m, pc = Scan (Some 1) 3 1\<rparr>"
    using reachable_main[OF r8] ns by (simp add: main_step_def numeral_2_eq_2 numeral_3_eq_3)
  show ?thesis
    using reachable_main[OF r9] by (simp add: main_step_def numeral_2_eq_2 numeral_3_eq_3)
qed

theorem dispatch_loop_capacity_and_order_witness:
  "reachable 2 (\<lambda>w. w\<lparr>failure := True\<rparr>) [Worker0, Worker0, Worker0]
     \<lparr>workers = [Worker0\<lparr>started := True\<rparr>, Worker0\<lparr>started := True\<rparr>, Worker0],
      mutex = [True, True, True], pc = Poll\<rparr>
   \<and> busy_workers [Worker0\<lparr>started := True\<rparr>, Worker0\<lparr>started := True\<rparr>, Worker0]
        [True, True, True] = 2
   \<and> busy_workers [Worker0\<lparr>started := True\<rparr>, Worker0\<lparr>started := True\<rparr>, Worker0]
        [True, True, True] \<le> max 1 2
   \<and> lowest_pending [Worker0, Worker0, Worker0] 0
   \<and> workers (main_step 2
         \<lparr>workers = [Worker0, Worker0, Worker0], mutex = [True, True, True],
          pc = Scan (Some 0) 3 0\<rparr>)
       = [Worker0\<lparr>started := True\<rparr>, Worker0, Worker0]"
proof -
  let ?f = "\<lambda>w :: Worker. w\<lparr>failure := True\<rparr>"
  let ?ws = "[Worker0, Worker0, Worker0]"
  let ?sA = "\<lparr>workers = ?ws, mutex = [True, True, True], pc = Scan (Some 0) 3 0\<rparr>"
  let ?sB = "\<lparr>workers = [Worker0\<lparr>started := True\<rparr>, Worker0\<lparr>started := True\<rparr>, Worker0],
      mutex = [True, True, True], pc = Poll\<rparr>"
  have ns: "\<not> started Worker0" by (simp add: Worker0_def)
  have fresh: "\<forall>w\<in>set ?ws. \<not> started w" using ns by simp
  have pres: "\<forall>w. started (?f w) = started w" by simp
  have mt: "\<not> (2 :: nat) \<le> 1" by simp
  have rB: "reachable 2 ?f ?ws ?sB" by (rule three_workers_two_started)
  have rA: "reachable 2 ?f ?ws ?sA" by (rule three_workers_first_scan)
  from dispatch_loop_capacity_and_order[OF rB mt fresh pres]
  have bound: "busy_workers (workers ?sB) (mutex ?sB) \<le> max 1 2" by blast
  have two: "busy_workers [Worker0\<lparr>started := True\<rparr>, Worker0\<lparr>started := True\<rparr>, Worker0]
        [True, True, True] = 2"
    using ns by (simp add: busy_workers_def numeral_3_eq_3)
  from dispatch_loop_capacity_and_order[OF rA mt fresh pres]
  have "\<forall>nxt busy_count.
            pc ?sA = Scan nxt (length ?ws) busy_count \<and> busy_count < 2
            \<and> (\<exists>j<length ?ws. \<not> started (workers ?sA ! j)) \<longrightarrow>
            (\<exists>k. lowest_pending (workers ?sA) k
                 \<and> workers (main_step 2 ?sA)
                     = (workers ?sA)[k := (workers ?sA ! k)\<lparr>started := True\<rparr>])"
    by blast
  moreover have "pc ?sA = Scan (Some 0) (length ?ws) 0 \<and> (0 :: nat) < 2
      \<and> (\<exists>j<length ?ws. \<not> started (workers ?sA ! j))"
  proof (intro conjI)
    show "pc ?sA = Scan (Some 0) (length ?ws) 0" by simp
    show "(0 :: nat) < 2" by simp
    show "\<exists>j<length ?ws. \<not> started (workers ?sA ! j)"
      using ns by (intro exI[of _ 0]) simp
  qed
  ultimately have "\<exists>k. lowest_pending (workers ?sA) k
                 \<and> workers (main_step 2 ?sA)
                     = (workers ?sA)[k := (workers ?sA ! k)\<lparr>started := True\<rparr>]"
    by blast
  then obtain k where k: "lowest_pending ?ws k"
    "workers (main_step 2 ?sA) = ?ws[k := (?ws ! k)\<lparr>started := True\<rparr>]"
    by auto
  have "lowest_pending ?ws 0" using ns by (simp add: lowest_pending_def)
  with k(1) have "k = 0" by (rule lowest_pending_unique)
  with k have low: "lowest_pending ?ws 0"
    and disp: "workers (main_step 2 ?sA) = [Worker0\<lparr>started := True\<rparr>, Worker0, Worker0]"
    by simp_all
  show ?thesis using rB two bound low disp by simp
qed

subsection \<open>The workers when the dispatch loop ends\<close>

lemma reachable_workers:
  assumes r: "reachable max_threads function ws s"
    and fresh: "\<forall>w\<in>set ws. \<not> started w"
    and pres: "\<forall>w. started (function w) = started w"
  shows "(\<forall>i<length ws.
            workers s ! i = (if \<not> started (workers s ! i) then ws ! i
                             else if mutex s ! i then (ws ! i)\<lparr>started := True\<rparr>
                             else function ((ws ! i)\<lparr>started := True\<rparr>)))
     \<and> (\<forall>i. pc s = Scan None i 0 \<longrightarrow> (\<forall>j<i. \<not> mutex s ! j))
     \<and> (pc s = Exit \<longrightarrow> (\<forall>j<length ws. started (workers s ! j) \<and> \<not> mutex s ! j))"
  using r
proof (induction rule: reachable.induct)
  case init
  show ?case using fresh by (simp add: init_sched_def)
next
  case (step s s')
  note inv = reachable_invariant[OF step.hyps(1) fresh pres]
  from inv have lw: "length (workers s) = length ws" and lm: "length (mutex s) = length ws"
    and locked: "\<forall>i<length ws. \<not> started (workers s ! i) \<longrightarrow> mutex s ! i"
    and scan: "\<And>nxt i busy_count. pc s = Scan nxt i busy_count \<Longrightarrow>
           nxt = next_worker (workers s) \<and> i \<le> length ws"
    by blast+
  from step.IH have Wall: "\<forall>i<length ws.
            workers s ! i = (if \<not> started (workers s ! i) then ws ! i
                             else if mutex s ! i then (ws ! i)\<lparr>started := True\<rparr>
                             else function ((ws ! i)\<lparr>started := True\<rparr>))"
    by blast
  then have W: "\<And>i. i < length ws \<Longrightarrow>
            workers s ! i = (if \<not> started (workers s ! i) then ws ! i
                             else if mutex s ! i then (ws ! i)\<lparr>started := True\<rparr>
                             else function ((ws ! i)\<lparr>started := True\<rparr>))"
    by blast
  from step.IH have S: "\<And>i. pc s = Scan None i 0 \<Longrightarrow> \<forall>j<i. \<not> mutex s ! j"
    and E: "pc s = Exit \<Longrightarrow> \<forall>j<length ws. started (workers s ! j) \<and> \<not> mutex s ! j"
    by blast+
  from step.hyps(2) show ?case
  proof (cases rule: step.cases)
    case main
    show ?thesis
    proof (cases "pc s")
      case Poll
      then have s': "s' = s\<lparr>pc := Scan (next_worker (workers s)) 0 0\<rparr>"
        using main by (simp add: main_step_def)
      show ?thesis unfolding s' using Wall by (simp split del: if_split cong: if_cong)
    next
      case Exit
      with main show ?thesis by simp
    next
      case (Scan nxt i busy_count)
      from scan[OF Scan] have nx: "nxt = next_worker (workers s)" and il: "i \<le> length ws"
        by blast+
      show ?thesis
      proof (cases "i < length (workers s)")
        case True
        define c' where "c' = (if \<not> mutex s ! i then busy_count
                               else busy_count + (if started (workers s ! i) then 1 else 0))"
        have s': "s' = s\<lparr>pc := Scan nxt (i + 1) c'\<rparr>"
          using main Scan True by (simp add: main_step_def c'_def)
        have "\<forall>j<Suc i. \<not> mutex s ! j" if n: "nxt = None" and z: "c' = 0"
        proof -
          have all: "\<forall>j<length (workers s). started (workers s ! j)"
            using next_worker_None[of "workers s"] nx n by simp
          then have "started (workers s ! i)" using True by simp
          with z have mi: "\<not> mutex s ! i" and b0: "busy_count = 0"
            by (auto simp: c'_def split: if_splits)
          from S[of i] Scan n b0 have "\<forall>j<i. \<not> mutex s ! j" by simp
          with mi show ?thesis by (auto simp: less_Suc_eq)
        qed
        then show ?thesis unfolding s' using Wall by (simp split del: if_split cong: if_cong)
      next
        case False
        then have i: "i = length ws" using il lw by simp
        show ?thesis
        proof (cases nxt)
          case None
          show ?thesis
          proof (cases "busy_count = 0")
            case True
            then have s': "s' = s\<lparr>pc := Exit\<rparr>"
              using main Scan None False by (simp add: main_step_def)
            have all: "\<forall>j<length ws. started (workers s ! j)"
              using next_worker_None[of "workers s"] nx None lw by simp
            have "\<forall>j<length ws. \<not> mutex s ! j"
              using S[of i] Scan None True i by simp
            with all show ?thesis unfolding s' using Wall by (simp split del: if_split cong: if_cong)
          next
            case False
            then have s': "s' = s\<lparr>pc := Poll\<rparr>"
              using main Scan None \<open>\<not> i < length (workers s)\<close> by (simp add: main_step_def)
            show ?thesis unfolding s' using Wall by (simp split del: if_split cong: if_cong)
          qed
        next
          case (Some k)
          show ?thesis
          proof (cases "busy_count < max_threads")
            case False
            then have s': "s' = s\<lparr>pc := Poll\<rparr>"
              using main Scan Some \<open>\<not> i < length (workers s)\<close> by (simp add: main_step_def)
            show ?thesis unfolding s' using Wall by (simp split del: if_split cong: if_cong)
          next
            case True
            have s': "s' = s\<lparr>workers := (workers s)[k := (workers s ! k)\<lparr>started := True\<rparr>],
                             pc := Poll\<rparr>"
              using main Scan Some True \<open>\<not> i < length (workers s)\<close> by (simp add: main_step_def)
            have lp: "lowest_pending (workers s) k"
              using next_worker_Some[of "workers s" k] nx Some by simp
            then have k: "k < length ws" "\<not> started (workers s ! k)"
              using lw by (simp_all add: lowest_pending_def)
            have wk: "workers s ! k = ws ! k" and mk: "mutex s ! k"
              using W[OF k(1)] k(2) locked k(1) by simp_all
            have "(workers s)[k := (workers s ! k)\<lparr>started := True\<rparr>] ! j
                = (if \<not> started ((workers s)[k := (workers s ! k)\<lparr>started := True\<rparr>] ! j)
                   then ws ! j
                   else if mutex s ! j then (ws ! j)\<lparr>started := True\<rparr>
                   else function ((ws ! j)\<lparr>started := True\<rparr>))"
              if j: "j < length ws" for j
            proof (cases "j = k")
              case True
              then show ?thesis using k lw wk mk by simp
            next
              case False
              then have eq: "(workers s)[k := (workers s ! k)\<lparr>started := True\<rparr>] ! j = workers s ! j"
                by simp
              show ?thesis unfolding eq by (rule W[OF j])
            qed
            then show ?thesis unfolding s' by (simp split del: if_split cong: if_cong)
          qed
        qed
      qed
    qed
  next
    case (thread i)
    have s': "s' = s\<lparr>workers := (workers s)[i := function (workers s ! i)],
                     mutex := (mutex s)[i := False]\<rparr>"
      using thread(1) by (simp add: thread_step_def)
    have i: "i < length ws" using thread(2) lw by simp
    have wi: "workers s ! i = (ws ! i)\<lparr>started := True\<rparr>"
      using W[OF i] thread(3,4) by simp
    have neq: "pc s \<noteq> Exit"
      using E i thread(4) by auto
    have "(workers s)[i := function (workers s ! i)] ! j
        = (if \<not> started ((workers s)[i := function (workers s ! i)] ! j) then ws ! j
           else if (mutex s)[i := False] ! j then (ws ! j)\<lparr>started := True\<rparr>
           else function ((ws ! j)\<lparr>started := True\<rparr>))"
      if j: "j < length ws" for j
    proof (cases "j = i")
      case True
      have "started (function (workers s ! i))" using pres thread(3) by simp
      then show ?thesis using True i lw lm wi by simp
    next
      case False
      then have eq: "(workers s)[i := function (workers s ! i)] ! j = workers s ! j"
        "(mutex s)[i := False] ! j = mutex s ! j"
        by simp_all
      show ?thesis unfolding eq by (rule W[OF j])
    qed
    moreover have "\<forall>j<k. \<not> (mutex s)[i := False] ! j" if "pc s = Scan None k 0" for k
    proof (intro allI impI)
      fix j assume "j < k"
      with S[OF that] have "\<not> mutex s ! j" by simp
      then show "\<not> (mutex s)[i := False] ! j"
        using i lm by (cases "j = i") simp_all
    qed
    ultimately show ?thesis unfolding s' using neq by (simp split del: if_split cong: if_cong)
  qed
qed

text \<open>
  When the main thread leaves the loop, every worker has been started and its
  thread has finished: the workers are what the job function makes of them.
\<close>

lemma dispatch_loop_exit:
  assumes "reachable max_threads function ws s" "pc s = Exit"
    and "\<forall>w\<in>set ws. \<not> started w" and "\<forall>w. started (function w) = started w"
  shows "workers s = map (\<lambda>w. function (w\<lparr>started := True\<rparr>)) ws"
proof (rule nth_equalityI)
  note inv = reachable_invariant[OF assms(1,3,4)]
  note w = reachable_workers[OF assms(1,3,4)]
  show "length (workers s) = length (map (\<lambda>w. function (w\<lparr>started := True\<rparr>)) ws)"
    using inv by simp
  fix i assume "i < length (workers s)"
  then have i: "i < length ws" using inv by simp
  from w assms(2) i have "started (workers s ! i) \<and> \<not> mutex s ! i" by blast
  moreover from w i
  have "workers s ! i = (if \<not> started (workers s ! i) then ws ! i
                             else if mutex s ! i then (ws ! i)\<lparr>started := True\<rparr>
                             else function ((ws ! i)\<lparr>started := True\<rparr>))"
    by blast
  ultimately show "workers s ! i = map (\<lambda>w. function (w\<lparr>started := True\<rparr>)) ws ! i"
    using i by simp
qed


subsection \<open>The dispatch loop can always end\<close>

lemma reachable_steps:
  assumes "(step max_threads function)\<^sup>*\<^sup>* s s'" "reachable max_threads function ws s"
  shows "reachable max_threads function ws s'"
  using assms by (induction rule: rtranclp_induct) (auto intro: reachable.step)

text \<open>The threads that have been started and not finished can all finish.\<close>

lemma finish_threads:
  assumes fresh: "\<forall>w\<in>set ws. \<not> started w"
    and pres: "\<forall>w. started (function w) = started w"
    and r: "reachable max_threads function ws s"
  shows "\<exists>s'. (step max_threads function)\<^sup>*\<^sup>* s s' \<and> pc s' = pc s
           \<and> map started (workers s') = map started (workers s)
           \<and> (\<forall>i<length ws. started (workers s' ! i) \<longrightarrow> \<not> mutex s' ! i)"
  using r
proof (induction "card {i. i < length ws \<and> started (workers s ! i) \<and> mutex s ! i}"
    arbitrary: s rule: less_induct)
  case less
  note inv = reachable_invariant[OF less.prems fresh pres]
  from inv have lw: "length (workers s) = length ws" and lm: "length (mutex s) = length ws"
    by blast+
  show ?case
  proof (cases "\<exists>i<length ws. started (workers s ! i) \<and> mutex s ! i")
    case False
    then have "(step max_threads function)\<^sup>*\<^sup>* s s \<and> pc s = pc s
           \<and> map started (workers s) = map started (workers s)
           \<and> (\<forall>i<length ws. started (workers s ! i) \<longrightarrow> \<not> mutex s ! i)"
      by blast
    then show ?thesis by blast
  next
    case True
    then obtain i where i: "i < length ws" "started (workers s ! i)" "mutex s ! i" by blast
    define s1 where "s1 = thread_step function i s"
    have st: "step max_threads function s s1"
      unfolding s1_def using i lw by (intro step.thread) simp_all
    have r1: "reachable max_threads function ws s1"
      using less.prems st by (rule reachable.step)
    have w1: "workers s1 = (workers s)[i := function (workers s ! i)]"
      and m1: "mutex s1 = (mutex s)[i := False]" and p1: "pc s1 = pc s"
      by (simp_all add: s1_def thread_step_def)
    have sm: "map started (workers s1) = map started (workers s)"
      unfolding w1 using pres by (rule started_thread_step)
    have sn: "started (workers s1 ! j) = started (workers s ! j)" for j
    proof (cases "j = i")
      case True
      then show ?thesis using i(1) lw pres by (simp add: w1)
    next
      case False
      then show ?thesis by (simp add: w1)
    qed
    have eq: "{j. j < length ws \<and> started (workers s1 ! j) \<and> mutex s1 ! j}
        = {j. j < length ws \<and> started (workers s ! j) \<and> mutex s ! j} - {i}"
    proof (rule set_eqI)
      fix j
      show "j \<in> {j. j < length ws \<and> started (workers s1 ! j) \<and> mutex s1 ! j}
          \<longleftrightarrow> j \<in> {j. j < length ws \<and> started (workers s ! j) \<and> mutex s ! j} - {i}"
      proof (cases "j = i")
        case True
        then show ?thesis using i(1) lm by (simp add: m1)
      next
        case False
        then show ?thesis using sn[of j] by (auto simp: m1)
      qed
    qed
    have mem: "i \<in> {j. j < length ws \<and> started (workers s ! j) \<and> mutex s ! j}"
      using i by simp
    have fin: "finite {j. j < length ws \<and> started (workers s ! j) \<and> mutex s ! j}"
      by simp
    have "card {j. j < length ws \<and> started (workers s1 ! j) \<and> mutex s1 ! j}
        < card {j. j < length ws \<and> started (workers s ! j) \<and> mutex s ! j}"
      unfolding eq using fin mem by (rule card_Diff1_less)
    from less.hyps[OF this r1] obtain s' where s':
      "(step max_threads function)\<^sup>*\<^sup>* s1 s'" "pc s' = pc s1"
      "map started (workers s') = map started (workers s1)"
      "\<forall>i<length ws. started (workers s' ! i) \<longrightarrow> \<not> mutex s' ! i"
      by blast
    have "(step max_threads function)\<^sup>*\<^sup>* s s'"
      using st s'(1) by (rule converse_rtranclp_into_rtranclp)
    moreover have "pc s' = pc s" using s'(2) p1 by simp
    moreover have "map started (workers s') = map started (workers s)"
      using s'(3) sm by simp
    ultimately show ?thesis using s'(4) by blast
  qed
qed

text \<open>
  With no thread running, \<open>busy_workers\<close> goes through the workers without
  counting any.
\<close>

lemma scan_to_end:
  assumes q: "\<forall>i<length (workers s). started (workers s ! i) \<longrightarrow> \<not> mutex s ! i"
    and i: "i \<le> length (workers s)"
  shows "(step max_threads function)\<^sup>*\<^sup>* (s\<lparr>pc := Scan nxt i c\<rparr>)
           (s\<lparr>pc := Scan nxt (length (workers s)) c\<rparr>)"
  using i
proof (induction "length (workers s) - i" arbitrary: i)
  case 0
  then have "i = length (workers s)" by simp
  then show ?case by simp
next
  case (Suc n)
  then have il: "i < length (workers s)" by simp
  have "main_step max_threads (s\<lparr>pc := Scan nxt i c\<rparr>) = s\<lparr>pc := Scan nxt (Suc i) c\<rparr>"
    using il q by (simp add: main_step_def)
  moreover have "step max_threads function (s\<lparr>pc := Scan nxt i c\<rparr>)
      (main_step max_threads (s\<lparr>pc := Scan nxt i c\<rparr>))"
    by (rule step.main) simp
  ultimately have one: "step max_threads function (s\<lparr>pc := Scan nxt i c\<rparr>)
      (s\<lparr>pc := Scan nxt (Suc i) c\<rparr>)"
    by simp
  have "(step max_threads function)\<^sup>*\<^sup>* (s\<lparr>pc := Scan nxt (Suc i) c\<rparr>)
           (s\<lparr>pc := Scan nxt (length (workers s)) c\<rparr>)"
    using Suc.hyps(2) il by (intro Suc.hyps(1)) simp_all
  with one show ?case by (rule converse_rtranclp_into_rtranclp)
qed

text \<open>
  From the top of the loop with no thread running, the main thread starts the
  workers left one after the other, each thread finishing at once, and leaves.
\<close>

lemma poll_to_exit:
  assumes fresh: "\<forall>w\<in>set ws. \<not> started w"
    and pres: "\<forall>w. started (function w) = started w"
    and mt: "0 < max_threads"
    and r: "reachable max_threads function ws s"
    and q: "\<forall>i<length ws. started (workers s ! i) \<longrightarrow> \<not> mutex s ! i"
    and p: "pc s = Poll"
  shows "\<exists>s'. (step max_threads function)\<^sup>*\<^sup>* s s' \<and> pc s' = Exit"
  using r q p
proof (induction "card {i. i < length ws \<and> \<not> started (workers s ! i)}"
    arbitrary: s rule: less_induct)
  case less
  note inv = reachable_invariant[OF less.prems(1) fresh pres]
  from inv have lw: "length (workers s) = length ws" and lm: "length (mutex s) = length ws"
    and locked: "\<forall>i<length ws. \<not> started (workers s ! i) \<longrightarrow> mutex s ! i"
    by blast+
  define nxt where "nxt = next_worker (workers s)"
  define s2 where "s2 = s\<lparr>pc := Scan nxt (length (workers s)) 0\<rparr>"
  have "main_step max_threads s = s\<lparr>pc := Scan nxt 0 0\<rparr>"
    using less.prems(3) by (simp add: main_step_def nxt_def)
  moreover have "step max_threads function s (main_step max_threads s)"
    using less.prems(3) by (intro step.main) simp
  ultimately have a: "step max_threads function s (s\<lparr>pc := Scan nxt 0 0\<rparr>)"
    by simp
  have b: "(step max_threads function)\<^sup>*\<^sup>* (s\<lparr>pc := Scan nxt 0 0\<rparr>) s2"
    unfolding s2_def using less.prems(2) lw by (intro scan_to_end) simp_all
  have s2: "(step max_threads function)\<^sup>*\<^sup>* s s2"
    using a b by (rule converse_rtranclp_into_rtranclp)
  have c: "step max_threads function s2 (main_step max_threads s2)"
    by (rule step.main) (simp add: s2_def)
  show ?case
  proof (cases nxt)
    case None
    then have "pc (main_step max_threads s2) = Exit"
      by (simp add: main_step_def s2_def)
    moreover have "(step max_threads function)\<^sup>*\<^sup>* s (main_step max_threads s2)"
      using s2 c by (rule rtranclp.rtrancl_into_rtrancl)
    ultimately show ?thesis by blast
  next
    case (Some k)
    then have "lowest_pending (workers s) k"
      unfolding nxt_def by (rule next_worker_Some)
    then have k: "k < length ws" "\<not> started (workers s ! k)"
      using lw by (simp_all add: lowest_pending_def)
    then have mk: "mutex s ! k" using locked by simp
    define s3 where "s3 = s\<lparr>workers := (workers s)[k := (workers s ! k)\<lparr>started := True\<rparr>]\<rparr>"
    have "main_step max_threads s2 = s3"
      using Some mt less.prems(3) by (simp add: main_step_def s2_def s3_def)
    with c have c3: "step max_threads function s2 s3" by simp
    define s4 where "s4 = thread_step function k s3"
    have c4: "step max_threads function s3 s4"
      unfolding s4_def using k(1) lw mk by (intro step.thread) (simp_all add: s3_def)
    have "(step max_threads function)\<^sup>*\<^sup>* s s3"
      using s2 c3 by (rule rtranclp.rtrancl_into_rtrancl)
    then have s4: "(step max_threads function)\<^sup>*\<^sup>* s s4"
      using c4 by (rule rtranclp.rtrancl_into_rtrancl)
    then have r4: "reachable max_threads function ws s4"
      using less.prems(1) by (rule reachable_steps)
    have p4: "pc s4 = Poll"
      using less.prems(3) by (simp add: s4_def s3_def thread_step_def)
    have w4: "workers s4 = (workers s)[k := function ((workers s ! k)\<lparr>started := True\<rparr>)]"
      using k(1) lw by (simp add: s4_def s3_def thread_step_def)
    have m4: "mutex s4 = (mutex s)[k := False]"
      by (simp add: s4_def s3_def thread_step_def)
    have sk: "started (workers s4 ! k)"
      using k(1) lw pres by (simp add: w4)
    have q4: "\<forall>i<length ws. started (workers s4 ! i) \<longrightarrow> \<not> mutex s4 ! i"
    proof (intro allI impI)
      fix i assume i: "i < length ws" and st: "started (workers s4 ! i)"
      show "\<not> mutex s4 ! i"
      proof (cases "i = k")
        case True
        then show ?thesis using k(1) lm by (simp add: m4)
      next
        case False
        then show ?thesis using st less.prems(2) i by (simp add: w4 m4)
      qed
    qed
    have eq: "{i. i < length ws \<and> \<not> started (workers s4 ! i)}
        = {i. i < length ws \<and> \<not> started (workers s ! i)} - {k}"
    proof (rule set_eqI)
      fix i
      show "i \<in> {i. i < length ws \<and> \<not> started (workers s4 ! i)}
          \<longleftrightarrow> i \<in> {i. i < length ws \<and> \<not> started (workers s ! i)} - {k}"
      proof (cases "i = k")
        case True
        then show ?thesis using sk by simp
      next
        case False
        then show ?thesis by (simp add: w4)
      qed
    qed
    have mem: "k \<in> {i. i < length ws \<and> \<not> started (workers s ! i)}"
      using k by simp
    have fin: "finite {i. i < length ws \<and> \<not> started (workers s ! i)}"
      by simp
    have "card {i. i < length ws \<and> \<not> started (workers s4 ! i)}
        < card {i. i < length ws \<and> \<not> started (workers s ! i)}"
      unfolding eq using fin mem by (rule card_Diff1_less)
    from less.hyps[OF this r4 q4 p4] obtain s' where s':
      "(step max_threads function)\<^sup>*\<^sup>* s4 s'" "pc s' = Exit"
      by blast
    have "(step max_threads function)\<^sup>*\<^sup>* s s'"
      using s4 s'(1) by (rule rtranclp_trans)
    with s'(2) show ?thesis by blast
  qed
qed

text \<open>
  From every state of the loop there is a way to its end: the threads that are
  running finish, and the main thread starts the workers that are left.
\<close>

lemma dispatch_loop_can_exit:
  assumes r: "reachable max_threads function ws s"
    and fresh: "\<forall>w\<in>set ws. \<not> started w"
    and pres: "\<forall>w. started (function w) = started w"
    and mt: "0 < max_threads"
  shows "\<exists>s'. (step max_threads function)\<^sup>*\<^sup>* s s' \<and> pc s' = Exit"
proof -
  from finish_threads[OF fresh pres r] obtain s1 where s1:
    "(step max_threads function)\<^sup>*\<^sup>* s s1"
    "\<forall>i<length ws. started (workers s1 ! i) \<longrightarrow> \<not> mutex s1 ! i"
    by blast
  have r1: "reachable max_threads function ws s1"
    using s1(1) r by (rule reachable_steps)
  note inv = reachable_invariant[OF r1 fresh pres]
  from inv have lw: "length (workers s1) = length ws"
    and scan: "\<And>nxt i busy_count. pc s1 = Scan nxt i busy_count \<Longrightarrow> i \<le> length ws"
    by blast+
  have "\<exists>s'. (step max_threads function)\<^sup>*\<^sup>* s1 s' \<and> pc s' = Exit"
  proof (cases "pc s1")
    case Exit
    then show ?thesis by blast
  next
    case Poll
    with poll_to_exit[OF fresh pres mt r1 s1(2)] show ?thesis by blast
  next
    case (Scan nxt i c)
    have e: "s1\<lparr>pc := Scan nxt i c\<rparr> = s1" using Scan by simp
    define s2 where "s2 = s1\<lparr>pc := Scan nxt (length (workers s1)) c\<rparr>"
    have "(step max_threads function)\<^sup>*\<^sup>* (s1\<lparr>pc := Scan nxt i c\<rparr>) s2"
      unfolding s2_def using s1(2) scan[OF Scan] lw by (intro scan_to_end) simp_all
    then have a: "(step max_threads function)\<^sup>*\<^sup>* s1 s2" by (simp only: e)
    define s3 where "s3 = main_step max_threads s2"
    have "step max_threads function s2 s3"
      unfolding s3_def by (rule step.main) (simp add: s2_def)
    with a have b: "(step max_threads function)\<^sup>*\<^sup>* s1 s3"
      by (rule rtranclp.rtrancl_into_rtrancl)
    have "pc s3 = Exit \<or> pc s3 = Poll"
      by (simp add: s3_def s2_def main_step_def split: option.splits)
    then show ?thesis
    proof
      assume "pc s3 = Exit"
      with b show ?thesis by blast
    next
      assume p3: "pc s3 = Poll"
      have r3: "reachable max_threads function ws s3"
        using b r1 by (rule reachable_steps)
      from finish_threads[OF fresh pres r3] obtain s4 where s4:
        "(step max_threads function)\<^sup>*\<^sup>* s3 s4" "pc s4 = pc s3"
        "\<forall>i<length ws. started (workers s4 ! i) \<longrightarrow> \<not> mutex s4 ! i"
        by blast
      have r4: "reachable max_threads function ws s4"
        using s4(1) r3 by (rule reachable_steps)
      have "pc s4 = Poll" using s4(2) p3 by simp
      from poll_to_exit[OF fresh pres mt r4 s4(3) this] obtain s' where s':
        "(step max_threads function)\<^sup>*\<^sup>* s4 s'" "pc s' = Exit"
        by blast
      have "(step max_threads function)\<^sup>*\<^sup>* s1 s4"
        using b s4(1) by (rule rtranclp_trans)
      then have "(step max_threads function)\<^sup>*\<^sup>* s1 s'"
        using s'(1) by (rule rtranclp_trans)
      with s'(2) show ?thesis by blast
    qed
  qed
  then obtain s' where s': "(step max_threads function)\<^sup>*\<^sup>* s1 s'" "pc s' = Exit"
    by blast
  have "(step max_threads function)\<^sup>*\<^sup>* s s'"
    using s1(1) s'(1) by (rule rtranclp_trans)
  with s'(2) show ?thesis by blast
qed


subsection \<open>Failing jobs and the end of the loop\<close>

text \<open>
  The workers that the drivers hand to \<open>perform_job\<close> have not been started, and
  the two job functions leave \<open>started\<close> alone: when the loop has ended on them,
  the workers are those of \<open>perform_job\<close>.
\<close>

lemma compress_workers_fresh:
  "compress_workers n idx = Inr ws \<Longrightarrow> \<forall>w\<in>set ws. \<not> started w"
proof (induction idx arbitrary: ws)
  case Nil
  then show ?case by simp
next
  case (Cons i idx)
  from Cons.prems obtain ws' where ws': "compress_workers n idx = Inr ws'"
    and ws: "ws = compress_worker n (i * CHUNK_SIZE) # ws'"
    by (auto simp: Let_def split: if_splits sum.splits)
  have "\<not> started (compress_worker n (i * CHUNK_SIZE))"
    by (simp add: compress_worker_def Worker0_def Let_def)
  with Cons.IH[OF ws'] show ?case by (simp add: ws)
qed

lemma decompress_workers_fresh:
  "decompress_workers file idx = Inr ws \<Longrightarrow> \<forall>w\<in>set ws. \<not> started w"
proof (induction idx arbitrary: ws)
  case Nil
  then show ?case by simp
next
  case (Cons i idx)
  from Cons.prems obtain ws' where ws': "decompress_workers file idx = Inr ws'"
    and ws: "ws = decompress_worker file (block_offsets file i) # ws'"
    by (auto simp: Let_def split: if_splits sum.splits)
  have "\<not> started (decompress_worker file (block_offsets file i))"
    by (simp add: decompress_worker_def Worker0_def Let_def)
  with Cons.IH[OF ws'] show ?case by (simp add: ws)
qed

lemma dispatch_loop_perform_job:
  assumes "reachable max_threads function ws s" "pc s = Exit" "\<not> max_threads \<le> 1"
    and "\<forall>w\<in>set ws. \<not> started w" "\<forall>w. started (function w) = started w"
  shows "workers s = perform_job max_threads function ws"
  using dispatch_loop_exit[OF assms(1,2,4,5)] assms(3) by (simp add: perform_job_def)

lemma dispatch_loop_compress_file:
  assumes "compress_workers (length B) [0..<bc] = Inr workers0"
    and "reachable (hardware_concurrency z) (perform_compression z B) workers0 s" "pc s = Exit"
    and "\<not> hardware_concurrency z \<le> 1"
  shows "workers s = perform_job (hardware_concurrency z) (perform_compression z B) workers0"
  using assms(2,3,4) compress_workers_fresh[OF assms(1)]
  by (rule dispatch_loop_perform_job) (simp add: perform_compression_keeps_started)

lemma dispatch_loop_decompress_file:
  assumes "decompress_workers file [0..<bc] = Inr workers0"
    and "reachable (hardware_concurrency z) (perform_decompression z file) workers0 s"
      "pc s = Exit"
    and "\<not> hardware_concurrency z \<le> 1"
  shows "workers s = perform_job (hardware_concurrency z) (perform_decompression z file) workers0"
  using assms(2,3,4) decompress_workers_fresh[OF assms(1)]
  by (rule dispatch_loop_perform_job) (simp add: perform_decompression_keeps_started)

text \<open>
  C7: on the threaded path of \<open>perform_job\<close>, whatever the job function does to
  the failure flags, the loop can end from every state it reaches, and when it
  has ended every worker has been started, its thread has finished (its mutex
  is unlocked) and the worker is what the job function makes of it, which is
  the value of \<open>perform_job\<close>; on both paths \<open>perform_job\<close> runs the job function
  on every worker. When \<open>compress_file\<close> or \<open>decompress_file\<close> has reached its
  jobs and some job has set its failure flag, the run ends with the failure
  diagnostics of all the blocks whose flag is set, in index order, and nothing
  is written.
\<close>

theorem failing_jobs_reported:
  "(\<not> max_threads \<le> 1 \<and> (\<forall>w\<in>set ws. \<not> started w)
      \<and> (\<forall>w. started (function w) = started w)
      \<and> reachable max_threads function ws s \<longrightarrow>
        (\<exists>s'. (step max_threads function)\<^sup>*\<^sup>* s s' \<and> pc s' = Exit)
        \<and> (pc s = Exit \<longrightarrow>
              workers s = perform_job max_threads function ws
              \<and> (\<forall>i<length ws. workers s ! i = function ((ws ! i)\<lparr>started := True\<rparr>)
                                   \<and> \<not> mutex s ! i)))
   \<and> (\<forall>i<length ws. perform_job max_threads function ws ! i
          = (if max_threads \<le> 1 then function (ws ! i)
             else function ((ws ! i)\<lparr>started := True\<rparr>)))
   \<and> ((length B mod 131072 = 0 \<or> 4 \<le> length B mod 131072)
        \<and> chunk_count (length B) \<le> 65535
        \<and> (\<exists>i<chunk_count (length B).
               failure (perform_compression z B (compress_worker (length B) (i * 131072)))) \<longrightarrow>
      compress_file z B
        = Inl (BlocksFailed (filter
            (\<lambda>i. failure (perform_compression z B (compress_worker (length B) (i * 131072))))
            [0..<chunk_count (length B)])))
   \<and> (262144 \<le> length file \<and> 0 < block_count file \<and> block_count file \<le> 65535
        \<and> (\<forall>i<block_count file. block_offsets file i + 4 \<le> length file)
        \<and> (\<exists>i<block_count file.
               failure (perform_decompression z file
                          (decompress_worker file (block_offsets file i)))) \<longrightarrow>
      decompress_file z file
        = Inl (BlocksFailed (filter
            (\<lambda>i. failure (perform_decompression z file
                             (decompress_worker file (block_offsets file i))))
            [0..<block_count file])))"
proof -
  have loop: "(\<exists>s'. (step max_threads function)\<^sup>*\<^sup>* s s' \<and> pc s' = Exit)
        \<and> (pc s = Exit \<longrightarrow>
              workers s = perform_job max_threads function ws
              \<and> (\<forall>i<length ws. workers s ! i = function ((ws ! i)\<lparr>started := True\<rparr>)
                                   \<and> \<not> mutex s ! i))"
    if mt: "\<not> max_threads \<le> 1" and fresh: "\<forall>w\<in>set ws. \<not> started w"
      and pres: "\<forall>w. started (function w) = started w"
      and r: "reachable max_threads function ws s"
  proof (intro conjI impI)
    from mt have "0 < max_threads" by simp
    with r fresh pres show "\<exists>s'. (step max_threads function)\<^sup>*\<^sup>* s s' \<and> pc s' = Exit"
      by (rule dispatch_loop_can_exit)
  next
    assume e: "pc s = Exit"
    from r e mt fresh pres show "workers s = perform_job max_threads function ws"
      by (rule dispatch_loop_perform_job)
    from dispatch_loop_exit[OF r e fresh pres] reachable_workers[OF r fresh pres] e
    show "\<forall>i<length ws. workers s ! i = function ((ws ! i)\<lparr>started := True\<rparr>)
                                   \<and> \<not> mutex s ! i"
      by simp
  qed
  have job: "\<forall>i<length ws. perform_job max_threads function ws ! i
          = (if max_threads \<le> 1 then function (ws ! i)
             else function ((ws ! i)\<lparr>started := True\<rparr>))"
    by (simp add: perform_job_def)
  have comp: "(length B mod 131072 = 0 \<or> 4 \<le> length B mod 131072)
        \<and> chunk_count (length B) \<le> 65535
        \<and> (\<exists>i<chunk_count (length B).
               failure (perform_compression z B (compress_worker (length B) (i * 131072)))) \<longrightarrow>
      compress_file z B
        = Inl (BlocksFailed (filter
            (\<lambda>i. failure (perform_compression z B (compress_worker (length B) (i * 131072))))
            [0..<chunk_count (length B)]))"
    using compress_file_failed_flags[of B z]
    by (simp add: CHUNK_SIZE_def sizeof_uint32_def MAX_BLOCKS_def)
  have decomp: "262144 \<le> length file \<and> 0 < block_count file \<and> block_count file \<le> 65535
        \<and> (\<forall>i<block_count file. block_offsets file i + 4 \<le> length file)
        \<and> (\<exists>i<block_count file.
               failure (perform_decompression z file
                          (decompress_worker file (block_offsets file i)))) \<longrightarrow>
      decompress_file z file
        = Inl (BlocksFailed (filter
            (\<lambda>i. failure (perform_decompression z file
                             (decompress_worker file (block_offsets file i))))
            [0..<block_count file]))"
    using decompress_file_failed_flags[of "file" z]
    by (simp add: sizeof_uint32_def MAX_BLOCKS_def sizeof_CompressedMapHeader_eq)
  from loop job comp decomp show ?thesis by blast
qed

theorem failing_jobs_reported_witness:
  "(\<exists>s. reachable 2 (\<lambda>w. w\<lparr>output_size := 1, failure := (input w = 0)\<rparr>)
          [Worker0, Worker0\<lparr>input := 1\<rparr>] s
        \<and> pc s = Exit
        \<and> workers s = [Worker0\<lparr>output_size := 1, failure := True, started := True\<rparr>,
                        Worker0\<lparr>input := 1, output_size := 1, started := True\<rparr>]
        \<and> \<not> mutex s ! 0 \<and> \<not> mutex s ! 1)
   \<and> perform_job 2 (\<lambda>w. w\<lparr>output_size := 1, failure := (input w = 0)\<rparr>)
        [Worker0, Worker0\<lparr>input := 1\<rparr>]
       = [Worker0\<lparr>output_size := 1, failure := True, started := True\<rparr>,
          Worker0\<lparr>input := 1, output_size := 1, started := True\<rparr>]
   \<and> perform_job 2 (\<lambda>w. w\<lparr>output_size := 1, failure := (input w = 0)\<rparr>)
        [Worker0, Worker0\<lparr>input := 1\<rparr>] ! 1
       = Worker0\<lparr>input := 1, output_size := 1, started := True\<rparr>
   \<and> compress_file zlib_stored (replicate 131080 65) = Inl (BlocksFailed [1])
   \<and> filter (\<lambda>i. failure (perform_compression zlib_stored (replicate 131080 65)
                           (compress_worker 131080 (i * 131072)))) [0..<2] = [1]
   \<and> decompress_file zlib_stored
        (header_bytes 3 [262160, 262144, 262160]
           @ (store_u32 1 @ ([0x78, 0x01] @ stored_blocks [65] @ store_be32 (adler32 [65])))
           @ replicate 8 0)
       = Inl (BlocksFailed [0, 2])
   \<and> filter (\<lambda>i. failure (perform_decompression zlib_stored
        (header_bytes 3 [262160, 262144, 262160]
           @ (store_u32 1 @ ([0x78, 0x01] @ stored_blocks [65] @ store_be32 (adler32 [65])))
           @ replicate 8 0)
        (decompress_worker
          (header_bytes 3 [262160, 262144, 262160]
             @ (store_u32 1 @ ([0x78, 0x01] @ stored_blocks [65] @ store_be32 (adler32 [65])))
             @ replicate 8 0)
          (block_offsets
            (header_bytes 3 [262160, 262144, 262160]
               @ (store_u32 1 @ ([0x78, 0x01] @ stored_blocks [65] @ store_be32 (adler32 [65])))
               @ replicate 8 0) i)))) [0..<3]
       = [0, 2]"
proof -
  define B :: "byte list" where "B = replicate 131080 65"
  define c :: "byte list" where "c = header_bytes 3 [262160, 262144, 262160]
                @ (store_u32 1 @ ([0x78, 0x01] @ stored_blocks [65] @ store_be32 (adler32 [65])))
                @ replicate 8 0"
  define g :: "Worker \<Rightarrow> Worker" where "g = (\<lambda>w. w\<lparr>output_size := 1, failure := (input w = 0)\<rparr>)"
  define ws where "ws = [Worker0, Worker0\<lparr>input := 1\<rparr>]"
  note t = failing_jobs_reported[of 2 ws g _ B zlib_stored c]
  note f = mixed_container[OF c_def]
  have lenB: "length B = 131080" by (simp add: B_def)
  have cc: "chunk_count 131080 = 2" by (simp add: chunk_count_def CHUNK_SIZE_def)
  \<comment> \<open>the threaded path\<close>
  have mt: "\<not> (2 :: nat) \<le> 1" by simp
  have fresh: "\<forall>w\<in>set ws. \<not> started w" by (simp add: ws_def Worker0_def)
  have pres: "\<forall>w. started (g w) = started w" by (simp add: g_def)
  have r0: "reachable 2 g ws (init_sched ws)" by (rule reachable.init)
  from t[of "init_sched ws"] mt fresh pres r0
  obtain s where s: "(step 2 g)\<^sup>*\<^sup>* (init_sched ws) s" "pc s = Exit"
    by blast
  have rs: "reachable 2 g ws s" using s(1) r0 by (rule reachable_steps)
  note ts = t[of s]
  from ts mt fresh pres rs s(2)
  have ex: "workers s = perform_job 2 g ws"
    "\<forall>i<length ws. workers s ! i = g ((ws ! i)\<lparr>started := True\<rparr>) \<and> \<not> mutex s ! i"
    by blast+
  have lw: "length (workers s) = 2"
    using reachable_invariant[OF rs fresh pres] by (simp add: ws_def)
  have w0: "workers s ! 0 = Worker0\<lparr>output_size := 1, failure := True, started := True\<rparr>"
    using ex(2) by (simp add: ws_def g_def Worker0_def)
  have w1: "workers s ! 1 = Worker0\<lparr>input := 1, output_size := 1, started := True\<rparr>"
    using ex(2) by (simp add: ws_def g_def Worker0_def)
  have wss: "workers s = [Worker0\<lparr>output_size := 1, failure := True, started := True\<rparr>,
                          Worker0\<lparr>input := 1, output_size := 1, started := True\<rparr>]"
  proof (rule nth_equalityI)
    show "length (workers s)
        = length [Worker0\<lparr>output_size := 1, failure := True, started := True\<rparr>,
                  Worker0\<lparr>input := 1, output_size := 1, started := True\<rparr>]"
      using lw by simp
  next
    fix i assume "i < length (workers s)"
    then have "i = 0 \<or> i = 1" using lw by auto
    then show "workers s ! i
        = [Worker0\<lparr>output_size := 1, failure := True, started := True\<rparr>,
           Worker0\<lparr>input := 1, output_size := 1, started := True\<rparr>] ! i"
      using w0 w1 by auto
  qed
  have pj: "perform_job 2 g ws
      = [Worker0\<lparr>output_size := 1, failure := True, started := True\<rparr>,
         Worker0\<lparr>input := 1, output_size := 1, started := True\<rparr>]"
    using ex(1) wss by simp
  from ts have "\<forall>i<length ws. perform_job 2 g ws ! i
      = (if (2 :: nat) \<le> 1 then g (ws ! i) else g ((ws ! i)\<lparr>started := True\<rparr>))"
    by blast
  then have "perform_job 2 g ws ! 1 = g ((ws ! 1)\<lparr>started := True\<rparr>)"
    by (simp add: ws_def)
  then have pj1: "perform_job 2 g ws ! 1 = Worker0\<lparr>input := 1, output_size := 1, started := True\<rparr>"
    by (simp add: ws_def g_def Worker0_def)
  have m: "\<not> mutex s ! 0" "\<not> mutex s ! 1"
    using ex(2) by (simp_all add: ws_def)
  have p1: "\<exists>s. reachable 2 g ws s \<and> pc s = Exit
        \<and> workers s = [Worker0\<lparr>output_size := 1, failure := True, started := True\<rparr>,
                        Worker0\<lparr>input := 1, output_size := 1, started := True\<rparr>]
        \<and> \<not> mutex s ! 0 \<and> \<not> mutex s ! 1"
    using rs s(2) ex(1) pj m by auto
  \<comment> \<open>compression\<close>
  have "chunk B (Suc 0) = replicate 8 65"
    by (simp add: B_def chunk_replicate CHUNK_SIZE_def)
  then have "\<not> deflate_ok zlib_stored (chunk B (Suc 0))"
    by (simp add: deflate_ok_stored)
  then have "failure (perform_compression zlib_stored B (compress_worker (length B) (1 * 131072)))"
    using perform_compression_failure[of "Suc 0" B zlib_stored]
    by (simp add: lenB CHUNK_SIZE_def)
  then have ex1: "\<exists>i<chunk_count (length B).
      failure (perform_compression zlib_stored B (compress_worker (length B) (i * 131072)))"
    unfolding lenB cc by (intro exI[of _ 1]) simp
  have hyp1: "(length B mod 131072 = 0 \<or> 4 \<le> length B mod 131072)
      \<and> chunk_count (length B) \<le> 65535"
    by (simp add: lenB cc)
  from ts hyp1 ex1 have "compress_file zlib_stored B
      = Inl (BlocksFailed (filter
            (\<lambda>i. failure (perform_compression zlib_stored B (compress_worker (length B) (i * 131072))))
            [0..<chunk_count (length B)]))"
    by blast
  then have p2: "filter (\<lambda>i. failure (perform_compression zlib_stored B
        (compress_worker 131080 (i * 131072)))) [0..<2] = [1]"
    using compress_file_tail_8 by (simp add: lenB cc B_def[symmetric])
  \<comment> \<open>decompression\<close>
  have "failure (perform_decompression zlib_stored c (decompress_worker c (block_offsets c 0)))"
    by (simp add: perform_decompression_failure f)
  then have ex2: "\<exists>i<block_count c.
      failure (perform_decompression zlib_stored c (decompress_worker c (block_offsets c i)))"
    unfolding f(2) by (intro exI[of _ 0]) simp
  have lt3: "i < 3 \<longleftrightarrow> i = 0 \<or> i = Suc 0 \<or> i = Suc (Suc 0)" for i :: nat by auto
  have o1: "block_offsets c (Suc 0) = 262144" using f(4) by simp
  have o2: "block_offsets c (Suc (Suc 0)) = 262160" using f(5) by (simp add: numeral_2_eq_2)
  have hyp2: "262144 \<le> length c \<and> 0 < block_count c \<and> block_count c \<le> 65535
      \<and> (\<forall>i<block_count c. block_offsets c i + 4 \<le> length c)"
    by (auto simp: f lt3 o1 o2)
  from ts hyp2 ex2 have "decompress_file zlib_stored c
      = Inl (BlocksFailed (filter
            (\<lambda>i. failure (perform_decompression zlib_stored c
                             (decompress_worker c (block_offsets c i))))
            [0..<block_count c]))"
    by blast
  moreover have "decompress_file zlib_stored c = Inl (BlocksFailed [0, 2])"
    unfolding c_def by (rule decompress_file_mixed)
  ultimately have p3: "filter (\<lambda>i. failure (perform_decompression zlib_stored c
        (decompress_worker c (block_offsets c i)))) [0..<3] = [0, 2]"
    by (simp add: f(2))
  show ?thesis
    using p1 pj pj1 p2 p3 compress_file_tail_8 decompress_file_mixed
    unfolding B_def c_def g_def ws_def by simp
qed

end
